theory Spec2Isabelle
  imports Main "HOL-Library.Char_ord" "HOL-Library.List_Lexorder"
begin

section \<open>Exceptions and outcomes\<close>

text \<open>
  \<^verbatim>\<open>src/core/subdirdata.cpp\<close> leaves a member function in one of three ways: it
  returns, an exception escapes it (\<^verbatim>\<open>throw std::runtime_error\<close>, \<^verbatim>\<open>std::stoi\<close>,
  the JSON library, \<^verbatim>\<open>fs::create_directories\<close>), or it ends the process with
  \<^verbatim>\<open>exit(1)\<close>. Dereferencing an empty \<^verbatim>\<open>unique_ptr\<close> is undefined behaviour in C++;
  the model stops there with \<open>NullDeref\<close>. Logging and the progress bar are output
  only and are not part of the model.
\<close>

datatype exn =
    RuntimeError string
  | OutOfRange
  | InvalidArgument
  | JsonTypeError nat
  | FilesystemError
  | NullDeref

datatype outcome = Return bool | Throw exn | Exit nat

section \<open>The JSON library (nlohmann::json)\<close>

text \<open>
  \<^verbatim>\<open>nlohmann::json\<close> is a third-party library; the repository uses its default
  instantiation, whose objects are a \<^verbatim>\<open>std::map\<close> from \<^verbatim>\<open>std::string\<close> keys: the
  members of an object are kept sorted by key (bytewise) and a key occurs once.
  A floating-point number is kept as its lexeme: no claim reads one.
\<close>

datatype json =
    Null
  | Boolean bool
  | NumberInteger int
  | NumberFloat string
  | String string
  | Array "json list"
  | Object "(string \<times> json) list"

text \<open>\<^verbatim>\<open>j[key] = v\<close> on the sorted member list of an object.\<close>

fun obj_set :: "string \<Rightarrow> json \<Rightarrow> (string \<times> json) list \<Rightarrow> (string \<times> json) list" where
  "obj_set k v [] = [(k, v)]"
| "obj_set k v ((k', v') # ms) =
     (if k = k' then (k, v) # ms
      else if k < k' then (k, v) # (k', v') # ms
      else (k', v') # obj_set k v ms)"

text \<open>\<^verbatim>\<open>operator[]\<close> with assignment: \<^verbatim>\<open>null\<close> turns into an object first; any other
  non-object raises \<^verbatim>\<open>type_error.305\<close>.\<close>

definition json_set :: "string \<Rightarrow> json \<Rightarrow> json \<Rightarrow> exn + json" where
  "json_set k v j =
     (case j of
        Null \<Rightarrow> Inr (Object [(k, v)])
      | Object ms \<Rightarrow> Inr (Object (obj_set k v ms))
      | _ \<Rightarrow> Inl (JsonTypeError 305))"

text \<open>\<^verbatim>\<open>clear()\<close> empties a container or string and zeroes a scalar; \<^verbatim>\<open>null\<close> stays.\<close>

definition json_clear :: "json \<Rightarrow> json" where
  "json_clear j =
     (case j of
        Null \<Rightarrow> Null
      | Boolean _ \<Rightarrow> Boolean False
      | NumberInteger _ \<Rightarrow> NumberInteger 0
      | NumberFloat _ \<Rightarrow> NumberFloat ''0.0''
      | String _ \<Rightarrow> String []
      | Array _ \<Rightarrow> Array []
      | Object _ \<Rightarrow> Object [])"

text \<open>\<^verbatim>\<open>size()\<close>: 0 for \<^verbatim>\<open>null\<close>, the number of elements of a container, 1 otherwise.\<close>

definition json_size :: "json \<Rightarrow> nat" where
  "json_size j =
     (case j of
        Null \<Rightarrow> 0
      | Array xs \<Rightarrow> length xs
      | Object ms \<Rightarrow> length ms
      | _ \<Rightarrow> 1)"

text \<open>\<^verbatim>\<open>j.value(key, std::string(default))\<close>: the member converted to a string when the
  key is present (\<^verbatim>\<open>type_error.302\<close> when it is not a string), the default when it is
  absent, \<^verbatim>\<open>type_error.306\<close> when \<open>j\<close> is not an object.\<close>

definition json_value :: "json \<Rightarrow> string \<Rightarrow> string \<Rightarrow> exn + string" where
  "json_value j k dflt =
     (case j of
        Object ms \<Rightarrow>
          (case map_of ms k of
             None \<Rightarrow> Inr dflt
           | Some (String s) \<Rightarrow> Inr s
           | Some _ \<Rightarrow> Inl (JsonTypeError 302))
      | _ \<Rightarrow> Inl (JsonTypeError 306))"

subsection \<open>UTF-8 validation\<close>

text \<open>
  Both the serializer and the lexer of the library accept exactly well-formed UTF-8.
  The automaton below has the states of the decoder the serializer runs: \<open>U_T\<close>\<open>n\<close>
  waits for \<open>n\<close> more continuation bytes, the other states restrict the first
  continuation byte after \<^verbatim>\<open>E0\<close>, \<^verbatim>\<open>ED\<close>, \<^verbatim>\<open>F0\<close> and \<^verbatim>\<open>F4\<close>.
\<close>

datatype utf8_state = U_Accept | U_Reject | U_T1 | U_T2 | U_T3 | U_E0 | U_ED | U_F0 | U_F4

definition in_range :: "nat \<Rightarrow> nat \<Rightarrow> nat \<Rightarrow> bool" where
  "in_range lo hi b = (lo \<le> b \<and> b \<le> hi)"

fun utf8_step :: "utf8_state \<Rightarrow> nat \<Rightarrow> utf8_state" where
  "utf8_step U_Accept b =
     (if b < 0x80 then U_Accept
      else if in_range 0xC2 0xDF b then U_T1
      else if b = 0xE0 then U_E0
      else if in_range 0xE1 0xEC b \<or> in_range 0xEE 0xEF b then U_T2
      else if b = 0xED then U_ED
      else if b = 0xF0 then U_F0
      else if in_range 0xF1 0xF3 b then U_T3
      else if b = 0xF4 then U_F4
      else U_Reject)"
| "utf8_step U_T1 b = (if in_range 0x80 0xBF b then U_Accept else U_Reject)"
| "utf8_step U_T2 b = (if in_range 0x80 0xBF b then U_T1 else U_Reject)"
| "utf8_step U_T3 b = (if in_range 0x80 0xBF b then U_T2 else U_Reject)"
| "utf8_step U_E0 b = (if in_range 0xA0 0xBF b then U_T1 else U_Reject)"
| "utf8_step U_ED b = (if in_range 0x80 0x9F b then U_T1 else U_Reject)"
| "utf8_step U_F0 b = (if in_range 0x90 0xBF b then U_T2 else U_Reject)"
| "utf8_step U_F4 b = (if in_range 0x80 0x8F b then U_T2 else U_Reject)"
| "utf8_step U_Reject b = U_Reject"

definition valid_utf8 :: "string \<Rightarrow> bool" where
  "valid_utf8 s = (foldl utf8_step U_Accept (map of_char s) = U_Accept)"

subsection \<open>Serialization: \<^verbatim>\<open>dump()\<close>\<close>

definition hex_digit :: "nat \<Rightarrow> char" where
  "hex_digit n = (if n < 10 then char_of (48 + n) else char_of (87 + n))"

text \<open>One byte of a string as \<^verbatim>\<open>dump_escaped\<close> writes it (\<^verbatim>\<open>ensure_ascii\<close> is off).\<close>

definition escape_char :: "char \<Rightarrow> string" where
  "escape_char c =
     (let b = (of_char c :: nat) in
      if b = 0x08 then [CHR 0x5C, CHR ''b'']
      else if b = 0x09 then [CHR 0x5C, CHR ''t'']
      else if b = 0x0A then [CHR 0x5C, CHR ''n'']
      else if b = 0x0C then [CHR 0x5C, CHR ''f'']
      else if b = 0x0D then [CHR 0x5C, CHR ''r'']
      else if b = 0x22 then [CHR 0x5C, CHR 0x22]
      else if b = 0x5C then [CHR 0x5C, CHR 0x5C]
      else if b \<le> 0x1F then
        [CHR 0x5C, CHR ''u'', CHR ''0'', CHR ''0'', hex_digit (b div 16), hex_digit (b mod 16)]
      else [c])"

definition dump_string :: "string \<Rightarrow> exn + string" where
  "dump_string s =
     (if valid_utf8 s then Inr ([CHR 0x22] @ concat (map escape_char s) @ [CHR 0x22])
      else Inl (JsonTypeError 316))"

function digits_of :: "nat \<Rightarrow> string" where
  "digits_of n =
     (if n < 10 then [char_of (48 + n)]
      else digits_of (n div 10) @ [char_of (48 + n mod 10)])"
  by pat_completeness auto
termination
  by (relation "measure id") auto

declare digits_of.simps [simp del]

definition dump_int :: "int \<Rightarrow> string" where
  "dump_int i = (if i < 0 then CHR ''-'' # digits_of (nat (- i)) else digits_of (nat i))"

text \<open>Joining serialized parts with commas, stopping at the first exception.\<close>

fun join_dumps :: "(exn + string) list \<Rightarrow> exn + string" where
  "join_dumps [] = Inr []"
| "join_dumps [d] = d"
| "join_dumps (d # ds) =
     (case d of
        Inl e \<Rightarrow> Inl e
      | Inr t \<Rightarrow> (case join_dumps ds of Inl e \<Rightarrow> Inl e | Inr ts \<Rightarrow> Inr (t @ '','' @ ts)))"

fun dump :: "json \<Rightarrow> exn + string"
  and dump_member :: "string \<times> json \<Rightarrow> exn + string" where
  "dump Null = Inr ''null''"
| "dump (Boolean b) = Inr (if b then ''true'' else ''false'')"
| "dump (NumberInteger i) = Inr (dump_int i)"
| "dump (NumberFloat l) = Inr l"
| "dump (String s) = dump_string s"
| "dump (Array xs) =
     (case join_dumps (map dump xs) of Inl e \<Rightarrow> Inl e | Inr t \<Rightarrow> Inr (''['' @ t @ '']''))"
| "dump (Object ms) =
     (case join_dumps (map dump_member ms) of Inl e \<Rightarrow> Inl e | Inr t \<Rightarrow> Inr (''{'' @ t @ ''}''))"
| "dump_member (k, v) =
     (case dump_string k of
        Inl e \<Rightarrow> Inl e
      | Inr kt \<Rightarrow> (case dump v of Inl e \<Rightarrow> Inl e | Inr vt \<Rightarrow> Inr (kt @ '':'' @ vt)))"

subsection \<open>Parsing: \<^verbatim>\<open>json::parse\<close>\<close>

definition is_ws :: "char \<Rightarrow> bool" where
  "is_ws c = (c = CHR '' '' \<or> c = CHR 0x09 \<or> c = CHR 0x0A \<or> c = CHR 0x0D)"

fun skip_ws :: "string \<Rightarrow> string" where
  "skip_ws [] = []"
| "skip_ws (c # cs) = (if is_ws c then skip_ws cs else c # cs)"

definition is_digit :: "char \<Rightarrow> bool" where
  "is_digit c = in_range 48 57 (of_char c)"

definition digit_val :: "char \<Rightarrow> nat" where
  "digit_val c = of_char c - 48"

definition decimal :: "string \<Rightarrow> nat" where
  "decimal ds = foldl (\<lambda>acc c. 10 * acc + digit_val c) 0 ds"

definition hexval :: "char \<Rightarrow> nat option" where
  "hexval c =
     (let b = (of_char c :: nat) in
      if in_range 48 57 b then Some (b - 48)
      else if in_range 65 70 b then Some (b - 55)
      else if in_range 97 102 b then Some (b - 87)
      else None)"

text \<open>Four hexadecimal digits at the head of the input.\<close>

definition hex4 :: "string \<Rightarrow> nat option" where
  "hex4 s =
     (case s of
        a # b # c # d # _ \<Rightarrow>
          (case (hexval a, hexval b, hexval c, hexval d) of
             (Some x, Some y, Some z, Some w) \<Rightarrow> Some (((x * 16 + y) * 16 + z) * 16 + w)
           | _ \<Rightarrow> None)
      | _ \<Rightarrow> None)"

text \<open>The input after \<^verbatim>\<open>\u\<close>: the code point and the number of characters read, a
  high surrogate taking its low surrogate with it.\<close>

definition scan_codepoint :: "string \<Rightarrow> (nat \<times> nat) option" where
  "scan_codepoint s =
     (case hex4 s of
        None \<Rightarrow> None
      | Some cp1 \<Rightarrow>
          if in_range 0xD800 0xDBFF cp1 then
            (if take 2 (drop 4 s) = [CHR 0x5C, CHR ''u''] then
               (case hex4 (drop 6 s) of
                  None \<Rightarrow> None
                | Some cp2 \<Rightarrow>
                    if in_range 0xDC00 0xDFFF cp2
                    then Some (0x10000 + (cp1 - 0xD800) * 0x400 + (cp2 - 0xDC00), 10)
                    else None)
             else None)
          else if in_range 0xDC00 0xDFFF cp1 then None
          else Some (cp1, 4))"

definition utf8_encode :: "nat \<Rightarrow> string" where
  "utf8_encode cp =
     (if cp < 0x80 then [char_of cp]
      else if cp \<le> 0x7FF then [char_of (0xC0 + cp div 0x40), char_of (0x80 + cp mod 0x40)]
      else if cp \<le> 0xFFFF then
        [char_of (0xE0 + cp div 0x1000), char_of (0x80 + cp div 0x40 mod 0x40),
         char_of (0x80 + cp mod 0x40)]
      else
        [char_of (0xF0 + cp div 0x40000), char_of (0x80 + cp div 0x1000 mod 0x40),
         char_of (0x80 + cp div 0x40 mod 0x40), char_of (0x80 + cp mod 0x40)])"

definition simple_escape :: "char \<Rightarrow> char option" where
  "simple_escape e =
     (if e = CHR 0x22 then Some (CHR 0x22)
      else if e = CHR 0x5C then Some (CHR 0x5C)
      else if e = CHR ''/'' then Some (CHR ''/'')
      else if e = CHR ''b'' then Some (CHR 0x08)
      else if e = CHR ''f'' then Some (CHR 0x0C)
      else if e = CHR ''n'' then Some (CHR 0x0A)
      else if e = CHR ''r'' then Some (CHR 0x0D)
      else if e = CHR ''t'' then Some (CHR 0x09)
      else None)"

definition prepend :: "string \<Rightarrow> (string \<times> string) option \<Rightarrow> (string \<times> string) option" where
  "prepend t r = (case r of None \<Rightarrow> None | Some (u, rest) \<Rightarrow> Some (t @ u, rest))"

text \<open>The lexer inside a string, after its opening quote: the decoded text and the
  input after the closing quote.\<close>

fun scan_string :: "utf8_state \<Rightarrow> string \<Rightarrow> (string \<times> string) option" where
  "scan_string st [] = None"
| "scan_string st (c # cs) =
     (if st = U_Accept \<and> c = CHR 0x22 then Some ([], cs)
      else if st = U_Accept \<and> c = CHR 0x5C then
        (case cs of
           [] \<Rightarrow> None
         | e # r \<Rightarrow>
             if e = CHR ''u'' then
               (case scan_codepoint r of
                  None \<Rightarrow> None
                | Some (cp, n) \<Rightarrow> prepend (utf8_encode cp) (scan_string U_Accept (drop n r)))
             else
               (case simple_escape e of
                  None \<Rightarrow> None
                | Some ch \<Rightarrow> prepend [ch] (scan_string U_Accept r)))
      else if st = U_Accept \<and> (of_char c :: nat) < 0x20 then None
      else
        (let st' = utf8_step st (of_char c) in
         if st' = U_Reject then None else prepend [c] (scan_string st' cs)))"

definition scan_literal :: "string \<Rightarrow> (json \<times> string) option" where
  "scan_literal s =
     (if take 4 s = ''true'' then Some (Boolean True, drop 4 s)
      else if take 5 s = ''false'' then Some (Boolean False, drop 5 s)
      else if take 4 s = ''null'' then Some (Null, drop 4 s)
      else None)"

text \<open>A number token: an optional minus, an integer part without a leading zero, an
  optional fraction and an optional exponent. An integer that fits 64 bits is an
  integer; every other number is a double.\<close>

definition scan_number :: "string \<Rightarrow> (json \<times> string) option" where
  "scan_number s =
     (let neg = (take 1 s = ''-'');
          s1 = (if neg then drop 1 s else s);
          ip = (if take 1 s1 = ''0'' then ''0'' else takeWhile is_digit s1);
          s2 = drop (length ip) s1;
          has_frac = (take 1 s2 = ''.'');
          fr = (if has_frac then takeWhile is_digit (drop 1 s2) else []);
          s3 = (if has_frac then drop (1 + length fr) s2 else s2);
          has_exp = (take 1 s3 = ''e'' \<or> take 1 s3 = ''E'');
          sg = (if has_exp \<and> (take 1 (drop 1 s3) = ''+'' \<or> take 1 (drop 1 s3) = ''-'')
                then 1 else (0::nat));
          ex = (if has_exp then takeWhile is_digit (drop (1 + sg) s3) else []);
          s4 = (if has_exp then drop (1 + sg + length ex) s3 else s3);
          lexeme = take (length s - length s4) s;
          v = (if neg then - int (decimal ip) else int (decimal ip))
      in if ip = [] \<or> (has_frac \<and> fr = []) \<or> (has_exp \<and> ex = []) then None
         else if has_frac \<or> has_exp then Some (NumberFloat lexeme, s4)
         else if - (2 ^ 63) \<le> v \<and> v < 2 ^ 64 then Some (NumberInteger v, s4)
         else Some (NumberFloat lexeme, s4))"

lemma length_skip_ws: "length (skip_ws s) \<le> length s"
  by (induction s) auto

lemma skip_ws_Cons_length: "skip_ws s = c # cs \<Longrightarrow> length cs < length s"
  using length_skip_ws [of s] by simp

text \<open>
  The recursive-descent parser: a value, the elements of an array after its first
  token, the members of an object after its first token. Each returns the value and
  the rest of the input. A member seen twice keeps its last value. The comparisons of
  lengths make the recursion well-founded; they never fail, since every call returns a
  proper suffix of its input.
\<close>

function parse_value :: "string \<Rightarrow> (json \<times> string) option"
  and parse_elements :: "json list \<Rightarrow> string \<Rightarrow> (json \<times> string) option"
  and parse_members :: "(string \<times> json) list \<Rightarrow> string \<Rightarrow> (json \<times> string) option" where
  "parse_value s =
     (case skip_ws s of
        [] \<Rightarrow> None
      | c # cs \<Rightarrow>
          if c = CHR ''{'' then
            (case skip_ws cs of
               [] \<Rightarrow> None
             | d # ds \<Rightarrow> if d = CHR ''}'' then Some (Object [], ds) else parse_members [] (d # ds))
          else if c = CHR ''['' then
            (case skip_ws cs of
               [] \<Rightarrow> None
             | d # ds \<Rightarrow> if d = CHR '']'' then Some (Array [], ds) else parse_elements [] (d # ds))
          else if c = CHR 0x22 then
            (case scan_string U_Accept cs of
               None \<Rightarrow> None
             | Some (t, r) \<Rightarrow> Some (String t, r))
          else if c = CHR ''t'' \<or> c = CHR ''f'' \<or> c = CHR ''n'' then scan_literal (c # cs)
          else scan_number (c # cs))"
| "parse_elements acc s =
     (case parse_value s of
        None \<Rightarrow> None
      | Some (v, r) \<Rightarrow>
          (case skip_ws r of
             [] \<Rightarrow> None
           | c # cs \<Rightarrow>
               if c = CHR '']'' then Some (Array (acc @ [v]), cs)
               else if c = CHR '','' \<and> length cs < length s then parse_elements (acc @ [v]) cs
               else None))"
| "parse_members acc s =
     (case skip_ws s of
        [] \<Rightarrow> None
      | c # cs \<Rightarrow>
          if c \<noteq> CHR 0x22 then None
          else
            (case scan_string U_Accept cs of
               None \<Rightarrow> None
             | Some (k, r) \<Rightarrow>
                 (case skip_ws r of
                    [] \<Rightarrow> None
                  | d # ds \<Rightarrow>
                      if d = CHR '':'' \<and> length ds < length s then
                        (case parse_value ds of
                           None \<Rightarrow> None
                         | Some (v, r') \<Rightarrow>
                             (case skip_ws r' of
                                [] \<Rightarrow> None
                              | e # es \<Rightarrow>
                                  if e = CHR ''}'' then Some (Object (obj_set k v acc), es)
                                  else if e = CHR '','' \<and> length es < length s
                                  then parse_members (obj_set k v acc) es
                                  else None))
                      else None)))"
  by pat_completeness auto

termination
proof (relation "measures [\<lambda>x. case x of Inl s \<Rightarrow> length s | Inr (Inl (_, s)) \<Rightarrow> length s
                                      | Inr (Inr (_, s)) \<Rightarrow> length s,
                           \<lambda>x. case x of Inl _ \<Rightarrow> 0 | Inr _ \<Rightarrow> Suc 0]", goal_cases)
  case 1
  show ?case by simp
next
  case (2 s c cs d ds)
  then show ?case
    using skip_ws_Cons_length [of s c cs] skip_ws_Cons_length [of cs d ds] by simp
next
  case (3 s c cs d ds)
  then show ?case
    using skip_ws_Cons_length [of s c cs] skip_ws_Cons_length [of cs d ds] by simp
next
  case 4
  then show ?case by simp
next
  case 5
  then show ?case by simp
next
  case 6
  then show ?case by simp
next
  case 7
  then show ?case by simp
qed

declare parse_value.simps [simp del] parse_elements.simps [simp del] parse_members.simps [simp del]

text \<open>\<^verbatim>\<open>json::parse\<close>: an optional byte-order mark, one value, then only white space.
  \<open>None\<close> is the \<^verbatim>\<open>parse_error\<close> exception.\<close>

definition parse :: "string \<Rightarrow> json option" where
  "parse s =
     (let s0 = (if take 3 s = [CHR 0xEF, CHR 0xBB, CHR 0xBF] then drop 3 s else s) in
      case parse_value s0 of
        None \<Rightarrow> None
      | Some (v, r) \<Rightarrow> if skip_ws r = [] then Some v else None)"


section \<open>The environment of \<^verbatim>\<open>MSubdirData\<close>\<close>

subsection \<open>Utility functions, files and time\<close>

text \<open>Modelled from the spec: \<^verbatim>\<open>starts_with\<close> and \<^verbatim>\<open>ends_with\<close> are declared in the
  repository's utility header, which is not under src/; the spec reads them as
  "the URL denotes a local filesystem path" (prefix \<^verbatim>\<open>file://\<close>) and "the source URL
  indicates bzip2 compression" (suffix \<^verbatim>\<open>.bz2\<close>).\<close>

definition starts_with :: "string \<Rightarrow> string \<Rightarrow> bool" where
  "starts_with s p = (take (length p) s = p)"

definition ends_with :: "string \<Rightarrow> string \<Rightarrow> bool" where
  "ends_with s p = (length p \<le> length s \<and> drop (length s - length p) s = p)"

text \<open>
  A file has its bytes and its last-write time; the file system maps a path to the
  file there. Times and durations are ticks of the file clock as integers.
  \<^verbatim>\<open>fs::file_time_type\<close> comes from a header outside src/: the model takes the
  64-bit nanosecond clock of libstdc++, so \<^verbatim>\<open>duration::max()\<close> is \<open>2^63 - 1\<close>.
  One call of \<open>load\<close> or \<open>finalize_transfer\<close> reads the clock once (\<open>now\<close>), and
  the files it touches get that time.
\<close>

record disk_file =
  content :: string
  mtime :: int

type_synonym filesystem = "string \<rightharpoonup> disk_file"

definition duration_max :: int where
  "duration_max = 2 ^ 63 - 1"

definition ticks_per_second :: int where
  "ticks_per_second = 1000000000"

text \<open>\<^verbatim>\<open>duration_cast<seconds>(d).count()\<close>: integer division that truncates towards zero.\<close>

definition seconds_count :: "int \<Rightarrow> int" where
  "seconds_count d =
     (if d < 0 then - ((- d) div ticks_per_second) else d div ticks_per_second)"

text \<open>\<^verbatim>\<open>utimensat(AT_FDCWD, path, NULL, AT_SYMLINK_NOFOLLOW)\<close>: the file's times become the
  current time; on a missing file the call fails and the code ignores its result.\<close>

definition utimensat :: "string \<Rightarrow> int \<Rightarrow> filesystem \<Rightarrow> filesystem" where
  "utimensat p now fs = (case fs p of None \<Rightarrow> fs | Some f \<Rightarrow> fs(p \<mapsto> f\<lparr>mtime := now\<rparr>))"

text \<open>Modelled from the spec: \<^verbatim>\<open>TemporaryFile\<close> is a class of the repository outside
  src/; the spec's staging file is "a temporary file exclusively owned" that "is
  destroyed once finalization completes or fails". Its constructor makes an empty file
  at a path the system chooses (an argument here), its destructor removes the file.\<close>

definition TemporaryFile :: "string \<Rightarrow> int \<Rightarrow> filesystem \<Rightarrow> filesystem" where
  "TemporaryFile p now fs = fs(p \<mapsto> \<lparr>content = [], mtime = now\<rparr>)"

definition destroy_TemporaryFile :: "string option \<Rightarrow> filesystem \<Rightarrow> filesystem" where
  "destroy_TemporaryFile t fs = (case t of None \<Rightarrow> fs | Some p \<Rightarrow> fs(p := None))"

text \<open>What an open \<^verbatim>\<open>std::ofstream\<close> leaves at its path when it is closed: the bytes
  written, unless the file was removed in between.\<close>

definition flush_ofstream :: "string \<Rightarrow> string \<Rightarrow> int \<Rightarrow> filesystem \<Rightarrow> filesystem" where
  "flush_ofstream p bytes now fs =
     (case fs p of None \<Rightarrow> fs | Some f \<Rightarrow> fs(p \<mapsto> \<lparr>content = bytes, mtime = now\<rparr>))"

subsection \<open>The configuration, the transfer target and the object's members\<close>

text \<open>\<^verbatim>\<open>Context::instance()\<close>: the two settings this file reads. The class is outside
  src/; the spec gives the TTL as an integer that can be zero or negative. The field
  here is the value of the setting, whatever the width of its type.\<close>

record Context =
  local_repodata_ttl :: int
  offline :: bool

text \<open>Modelled from the spec: \<^verbatim>\<open>DownloadTarget\<close> is the external transfer target: it
  "exposes result code, HTTP status, and response ETag/last-modified/cache-control".
  The constructor takes name, URL and destination file; the response fields are
  written by the transfer before it calls \<open>finalize_transfer\<close>, and no claim reads
  the values they have before.\<close>

record download_target =
  t_name :: string
  t_url :: string
  t_filename :: string
  t_ignore_failure :: bool
  t_mod_etag_headers :: json
  t_result :: int
  t_http_status :: int
  t_etag :: string
  t_mod :: string
  t_cache_control :: string

definition DownloadTarget :: "string \<Rightarrow> string \<Rightarrow> string \<Rightarrow> download_target" where
  "DownloadTarget name url filename =
     \<lparr>t_name = name, t_url = url, t_filename = filename, t_ignore_failure = False,
      t_mod_etag_headers = Null, t_result = 0, t_http_status = 0, t_etag = [], t_mod = [],
      t_cache_control = []\<rparr>"

text \<open>The data members of \<^verbatim>\<open>MSubdirData\<close>; an empty \<^verbatim>\<open>unique_ptr\<close> is \<open>None\<close>, a
  \<^verbatim>\<open>TemporaryFile\<close> is its path.\<close>

record subdir_data =
  m_loaded :: bool
  m_download_complete :: bool
  m_repodata_url :: string
  m_name :: string
  m_json_fn :: string
  m_solv_fn :: string
  m_is_noarch :: bool
  m_json_cache_valid :: bool
  m_solv_cache_valid :: bool
  m_mod_etag :: json
  m_temp_file :: "string option"
  m_target :: "download_target option"

subsection \<open>The archive library\<close>

text \<open>
  \<^verbatim>\<open>libarchive\<close> is a black box: what it does with the bytes of a file is a parameter
  of the model. Opening the file or reading the entry header can fail; after that
  each \<^verbatim>\<open>archive_read_data\<close> gives a block of bytes (an empty block, or the end of the
  list, is the return value 0) or a negative result.
\<close>

datatype read_result = Block string | ReadFailure string

datatype archive = OpenFails | HeaderFails | Entry "read_result list"

text \<open>What one call of \<open>finalize_transfer\<close> finds around it: the clock, whether
  \<^verbatim>\<open>std::ofstream final_file(m_json_fn)\<close> opens, whether \<^verbatim>\<open>create_cache_dir()\<close> returns
  (\<^verbatim>\<open>fs::create_directories\<close> throws otherwise), the archive library, and the path of the
  temporary file that \<open>decompress\<close> makes.\<close>

record finalize_env =
  env_now :: int
  env_final_file_opens :: bool
  env_cache_dir_ok :: bool
  env_libarchive :: "string \<Rightarrow> archive"
  env_decompress_tmp :: string

section \<open>The functions of \<^verbatim>\<open>src/core/subdirdata.cpp\<close>\<close>

subsection \<open>\<^verbatim>\<open>decompress::raw\<close>\<close>

text \<open>The \<^verbatim>\<open>while (true)\<close> loop: the bytes written to \<^verbatim>\<open>out_file\<close>, and the error
  string when a read was negative.\<close>

fun read_loop :: "read_result list \<Rightarrow> string \<Rightarrow> string option \<times> string" where
  "read_loop [] written = (None, written)"
| "read_loop (ReadFailure msg # rs) written = (Some msg, written)"
| "read_loop (Block b # rs) written =
     (if b = [] then (None, written) else read_loop rs (written @ b))"

text \<open>\<^verbatim>\<open>out_file\<close> is opened after the archive and before its header is read; its
  destructor writes what the loop wrote, also when the exception leaves the function.\<close>

definition raw :: "(string \<Rightarrow> archive) \<Rightarrow> int \<Rightarrow> string \<Rightarrow> string \<Rightarrow> filesystem
    \<Rightarrow> (exn + bool) \<times> filesystem" where
  "raw la now inp out fs =
     (case fs inp of
        None \<Rightarrow> (Inr False, fs)
      | Some f \<Rightarrow>
          (case la (content f) of
             OpenFails \<Rightarrow> (Inr False, fs)
           | HeaderFails \<Rightarrow> (Inr False, fs(out \<mapsto> \<lparr>content = [], mtime = now\<rparr>))
           | Entry rs \<Rightarrow>
               (case read_loop rs [] of
                  (Some msg, written) \<Rightarrow>
                    (Inl (RuntimeError (''Could not read archive: '' @ msg)),
                     fs(out \<mapsto> \<lparr>content = written, mtime = now\<rparr>))
                | (None, written) \<Rightarrow>
                    (Inr True, fs(out \<mapsto> \<lparr>content = written, mtime = now\<rparr>)))))"

subsection \<open>\<^verbatim>\<open>check_cache\<close>, \<^verbatim>\<open>forbid_cache\<close>, \<^verbatim>\<open>cache_path\<close>, \<^verbatim>\<open>clear_cache\<close>\<close>

definition check_cache :: "filesystem \<Rightarrow> string \<Rightarrow> int \<Rightarrow> int" where
  "check_cache fs cache_file ref =
     (case fs cache_file of
        Some f \<Rightarrow> ref - mtime f
      | None \<Rightarrow> duration_max)"

definition forbid_cache :: "subdir_data \<Rightarrow> bool" where
  "forbid_cache s = starts_with (m_repodata_url s) ''file://''"

definition cache_path :: "subdir_data \<Rightarrow> exn + string" where
  "cache_path s =
     (if m_json_cache_valid s \<and> m_solv_cache_valid s then Inr (m_solv_fn s)
      else if m_json_cache_valid s then Inr (m_json_fn s)
      else Inl (RuntimeError ''Cache not loaded!''))"

definition remove_if_exists :: "string \<Rightarrow> filesystem \<Rightarrow> filesystem" where
  "remove_if_exists p fs = (if fs p \<noteq> None then fs(p := None) else fs)"

definition clear_cache :: "subdir_data \<times> filesystem \<Rightarrow> subdir_data \<times> filesystem" where
  "clear_cache sf =
     (case sf of (s, fs) \<Rightarrow>
        (s, remove_if_exists (m_solv_fn s) (remove_if_exists (m_json_fn s) fs)))"

subsection \<open>\<^verbatim>\<open>get_cache_control_max_age\<close>\<close>

text \<open>
  \<^verbatim>\<open>std::regex_search(val, m, "max-age=(\\d+)")\<close> finds the leftmost place where the
  literal \<^verbatim>\<open>max-age=\<close> is followed by a digit, and captures the longest run of digits
  there. \<open>regex_match_here\<close> is the match at the head of the input.
\<close>

definition regex_match_here :: "string \<Rightarrow> string option" where
  "regex_match_here s =
     (if take 8 s = ''max-age='' \<and> takeWhile is_digit (drop 8 s) \<noteq> []
      then Some (takeWhile is_digit (drop 8 s)) else None)"

fun regex_search :: "string \<Rightarrow> string option" where
  "regex_search [] = None"
| "regex_search (c # cs) =
     (case regex_match_here (c # cs) of
        Some digits \<Rightarrow> Some digits
      | None \<Rightarrow> regex_search cs)"

text \<open>\<^verbatim>\<open>std::stoi\<close> on the captured text, which has digits only:
  \<^verbatim>\<open>std::invalid_argument\<close> without a digit, \<^verbatim>\<open>std::out_of_range\<close> when the number
  does not fit a 32-bit \<^verbatim>\<open>int\<close>.\<close>

definition INT_MAX :: int where
  "INT_MAX = 2 ^ 31 - 1"

definition stoi :: "string \<Rightarrow> exn + int" where
  "stoi str =
     (let ds = takeWhile is_digit str in
      if ds = [] then Inl InvalidArgument
      else if int (decimal ds) > INT_MAX then Inl OutOfRange
      else Inr (int (decimal ds)))"

definition get_cache_control_max_age :: "string \<Rightarrow> exn + int" where
  "get_cache_control_max_age val =
     (case regex_search val of
        None \<Rightarrow> Inr 0
      | Some max_age_match \<Rightarrow> stoi max_age_match)"

subsection \<open>\<^verbatim>\<open>read_mod_and_etag\<close>\<close>

text \<open>The lambda \<^verbatim>\<open>extract_subjson\<close>: the bytes still to read, then the locals
  \<^verbatim>\<open>result\<close>, \<^verbatim>\<open>escaped\<close> and \<^verbatim>\<open>i\<close>; \<^verbatim>\<open>N\<close> is 4.\<close>

fun extract_subjson :: "string \<Rightarrow> string \<Rightarrow> bool \<Rightarrow> nat \<Rightarrow> string" where
  "extract_subjson [] result escaped i = []"
| "extract_subjson (next # s) result escaped i =
     (if next = CHR 0x22 then
        (let i' = (if \<not> escaped then i + 1 else i);
             escaped' = (if \<not> escaped then escaped else False)
         in if i' = 4 * 4 then result @ [CHR 0x22, CHR ''}'']
            else extract_subjson s (result @ [next]) escaped' i')
      else if next = CHR 0x5C then extract_subjson s (result @ [next]) True i
      else extract_subjson s (result @ [next]) escaped i)"

text \<open>A file that cannot be opened gives a stream that reads nothing; a parse error
  is caught and gives \<^verbatim>\<open>nlohmann::json()\<close>, which is \<^verbatim>\<open>null\<close>.\<close>

definition read_mod_and_etag :: "filesystem \<Rightarrow> string \<Rightarrow> json" where
  "read_mod_and_etag fs json_fn =
     (let in_file = (case fs json_fn of None \<Rightarrow> [] | Some f \<Rightarrow> content f);
          json_text = extract_subjson in_file [] False 0
      in case parse json_text of
           Some result \<Rightarrow> result
         | None \<Rightarrow> Null)"

subsection \<open>\<^verbatim>\<open>create_target\<close>\<close>

text \<open>The new temporary file exists before the assignment to \<^verbatim>\<open>m_temp_file\<close> destroys
  the one held so far. \<open>tmp\<close> is the path of the new file.\<close>

definition create_target :: "string \<Rightarrow> int \<Rightarrow> json \<Rightarrow> subdir_data \<times> filesystem
    \<Rightarrow> subdir_data \<times> filesystem" where
  "create_target tmp now mod_etag sf =
     (case sf of (s, fs) \<Rightarrow>
        (let fs' = destroy_TemporaryFile (m_temp_file s) (TemporaryFile tmp now fs);
             target = DownloadTarget (m_name s) (m_repodata_url s) tmp;
             target' = (if \<not> m_is_noarch s then target\<lparr>t_ignore_failure := True\<rparr> else target)
         in (s\<lparr>m_temp_file := Some tmp,
               m_target := Some (target'\<lparr>t_mod_etag_headers := mod_etag\<rparr>)\<rparr>, fs')))"

subsection \<open>\<^verbatim>\<open>load\<close>\<close>

text \<open>The local \<^verbatim>\<open>max_age\<close> of line 117 is a 32-bit \<^verbatim>\<open>int\<close>. The TTL setting is declared
  outside src/ and may have a wider integer type, and \<open>get_cache_control_max_age\<close>
  returns a \<^verbatim>\<open>std::size_t\<close>: the assignments of lines 120 and 126 narrow the value to
  32 bits, wrapping around in two's complement.\<close>

definition narrow_int :: "int \<Rightarrow> int" where
  "narrow_int x = (x + 2 ^ 31) mod 2 ^ 32 - 2 ^ 31"

text \<open>Lines 117 to 127: the value of the local \<^verbatim>\<open>max_age\<close> from the TTL setting and
  the headers read from the cache file.\<close>

definition max_age_seconds :: "int \<Rightarrow> json \<Rightarrow> exn + int" where
  "max_age_seconds ttl mod_etag =
     (if ttl > 1 then Inr (narrow_int ttl)
      else if ttl = 1 then
        (case json_value mod_etag ''_cache_control'' [] of
           Inl e \<Rightarrow> Inl e
         | Inr el \<Rightarrow>
             (case get_cache_control_max_age el of
                Inl e \<Rightarrow> Inl e
              | Inr n \<Rightarrow> Inr (narrow_int n)))
      else Inr 0)"

definition load :: "Context \<Rightarrow> int \<Rightarrow> string \<Rightarrow> subdir_data \<times> filesystem
    \<Rightarrow> outcome \<times> subdir_data \<times> filesystem" where
  "load ctx now tmp sf =
     (case sf of (s, fs) \<Rightarrow>
        (let cache_age = check_cache fs (m_json_fn s) now in
         if cache_age \<noteq> duration_max \<and> \<not> forbid_cache s then
           (let s1 = s\<lparr>m_mod_etag := read_mod_and_etag fs (m_json_fn s)\<rparr> in
            if json_size (m_mod_etag s1) \<noteq> 0 then
              (case max_age_seconds (local_repodata_ttl ctx) (m_mod_etag s1) of
                 Inl e \<Rightarrow> (Throw e, s1, fs)
               | Inr max_age \<Rightarrow>
                   (let cache_age_seconds = seconds_count cache_age in
                    if max_age > cache_age_seconds \<or> offline ctx then
                      (let s2 = s1\<lparr>m_loaded := True, m_json_cache_valid := True\<rparr>;
                           solv_age = check_cache fs (m_solv_fn s) now
                       in if solv_age \<noteq> duration_max \<and> solv_age \<le> cache_age
                          then (Return True, s2\<lparr>m_solv_cache_valid := True\<rparr>, fs)
                          else (Return True, s2, fs))
                    else
                      (case create_target tmp now (m_mod_etag s1) (s1, fs) of
                         (s', fs') \<Rightarrow> (Return True, s', fs'))))
            else
              (case create_target tmp now (m_mod_etag s1) (s1, fs) of
                 (s', fs') \<Rightarrow> (Return True, s', fs')))
         else if \<not> offline ctx \<or> forbid_cache s then
           (case create_target tmp now (m_mod_etag s) (s, fs) of
              (s', fs') \<Rightarrow> (Return True, s', fs'))
         else (Return True, s, fs)))"

subsection \<open>\<^verbatim>\<open>MSubdirData::decompress\<close>\<close>

text \<open>When \<open>raw\<close> throws, the new temporary file is destroyed on the way out and
  \<^verbatim>\<open>m_temp_file\<close> is untouched; otherwise the two are swapped, whatever \<open>raw\<close> returned,
  and the file held before is destroyed at the end of the function.\<close>

definition decompress :: "finalize_env \<Rightarrow> subdir_data \<times> filesystem
    \<Rightarrow> (exn + bool) \<times> subdir_data \<times> filesystem" where
  "decompress env sf =
     (case sf of (s, fs) \<Rightarrow>
        (let json_temp_file = env_decompress_tmp env;
             fs1 = TemporaryFile json_temp_file (env_now env) fs
         in case m_temp_file s of
              None \<Rightarrow> (Inl NullDeref, s, fs1)
            | Some staged \<Rightarrow>
                (case raw (env_libarchive env) (env_now env) staged json_temp_file fs1 of
                   (Inl e, fs2) \<Rightarrow> (Inl e, s, destroy_TemporaryFile (Some json_temp_file) fs2)
                 | (Inr result, fs2) \<Rightarrow>
                     (Inr result, s\<lparr>m_temp_file := Some json_temp_file\<rparr>,
                      destroy_TemporaryFile (Some staged) fs2))))"

subsection \<open>\<^verbatim>\<open>finalize_transfer\<close>\<close>

text \<open>Lines 255 to 259: \<^verbatim>\<open>m_mod_etag.clear()\<close> and the four assignments.\<close>

definition set_mod_etag :: "string \<Rightarrow> download_target \<Rightarrow> json \<Rightarrow> exn + json" where
  "set_mod_etag url t j =
     (case json_set ''_url'' (String url) (json_clear j) of
        Inl e \<Rightarrow> Inl e
      | Inr j1 \<Rightarrow>
          (case json_set ''_etag'' (String (t_etag t)) j1 of
             Inl e \<Rightarrow> Inl e
           | Inr j2 \<Rightarrow>
               (case json_set ''_mod'' (String (t_mod t)) j2 of
                  Inl e \<Rightarrow> Inl e
                | Inr j3 \<Rightarrow> json_set ''_cache_control'' (String (t_cache_control t)) j3)))"

text \<open>Lines 280 to 314, after the optional decompression: the header object is
  serialized, its last byte is overwritten with a comma, and the staged file is copied
  from its second byte. \<^verbatim>\<open>!temp_file\<close> holds when the staged file could not be opened.\<close>

definition splice :: "finalize_env \<Rightarrow> subdir_data \<times> filesystem
    \<Rightarrow> outcome \<times> subdir_data \<times> filesystem" where
  "splice env sf =
     (case sf of (s, fs) \<Rightarrow>
        (case m_temp_file s of
           None \<Rightarrow> (Throw NullDeref, s, fs)
         | Some staged \<Rightarrow>
             (case dump (m_mod_etag s) of
                Inl e \<Rightarrow> (Throw e, s, fs)
              | Inr temp_json \<Rightarrow>
                  (case fs staged of
                     None \<Rightarrow> (Exit 1, s, fs(m_json_fn s := None))
                   | Some temp_file \<Rightarrow>
                       (let final = butlast temp_json @ '','' @ drop 1 (content temp_file);
                            s' = s\<lparr>m_json_cache_valid := True, m_loaded := True,
                                   m_temp_file := None\<rparr>;
                            fs1 = destroy_TemporaryFile (Some staged) fs;
                            fs2 = flush_ofstream (m_json_fn s) final (env_now env) fs1
                        in (Return True, s', utimensat (m_json_fn s) (env_now env) fs2))))))"

definition finalize_transfer :: "finalize_env \<Rightarrow> subdir_data \<times> filesystem
    \<Rightarrow> outcome \<times> subdir_data \<times> filesystem" where
  "finalize_transfer env sf =
     (case sf of (s, fs) \<Rightarrow>
        (case m_target s of
           None \<Rightarrow> (Throw NullDeref, s, fs)
         | Some t \<Rightarrow>
             if t_result t \<noteq> 0 \<or> t_http_status t \<ge> 400 then
               (Return False, s\<lparr>m_loaded := False\<rparr>, fs)
             else if \<not> (t_http_status t = 0 \<or> t_http_status t = 200 \<or> t_http_status t = 304) then
               (Throw (RuntimeError (''Unhandled HTTP code: '' @ dump_int (t_http_status t))), s, fs)
             else
               (let s0 = s\<lparr>m_download_complete := True\<rparr>; now = env_now env in
                if t_http_status t = 304 then
                  (let cache_age = check_cache fs (m_json_fn s) now;
                       solv_age = check_cache fs (m_solv_fn s) now;
                       fs1 = utimensat (m_json_fn s) now fs;
                       s1 = (if solv_age \<noteq> duration_max \<and> solv_age \<le> cache_age
                             then s0\<lparr>m_solv_cache_valid := True\<rparr> else s0);
                       fs2 = (if solv_age \<noteq> duration_max \<and> solv_age \<le> cache_age
                              then utimensat (m_solv_fn s) now fs1 else fs1)
                   in (Return True,
                       s1\<lparr>m_json_cache_valid := True, m_loaded := True, m_temp_file := None\<rparr>,
                       destroy_TemporaryFile (m_temp_file s) fs2))
                else
                  (case set_mod_etag (m_repodata_url s) t (m_mod_etag s) of
                     Inl e \<Rightarrow> (Throw e, s0\<lparr>m_mod_etag := json_clear (m_mod_etag s)\<rparr>, fs)
                   | Inr mod_etag \<Rightarrow>
                       (let s1 = s0\<lparr>m_mod_etag := mod_etag\<rparr>;
                            fs1 = (if env_final_file_opens env
                                   then fs(m_json_fn s \<mapsto> \<lparr>content = [], mtime = now\<rparr>) else fs)
                        in if \<not> env_cache_dir_ok env then (Throw FilesystemError, s1, fs1)
                           else if \<not> env_final_file_opens env then (Exit 1, s1, fs1)
                           else if ends_with (m_repodata_url s) ''.bz2'' then
                             (case decompress env (s1, fs1) of
                                (Inl e, s2, fs2) \<Rightarrow> (Throw e, s2, fs2)
                              | (Inr _, s2, fs2) \<Rightarrow> splice env (s2, fs2))
                           else splice env (s1, fs1))))))"

section \<open>Notions used in the statements\<close>

text \<open>A string as \<open>dump\<close> writes it when it is well-formed UTF-8.\<close>

definition quoted :: "string \<Rightarrow> string" where
  "quoted s = [CHR 0x22] @ concat (map escape_char s) @ [CHR 0x22]"

text \<open>The header object that lines 255 to 259 build, and the bytes that the splice
  writes for it: its serialization with the closing brace replaced by a comma. The
  members stand in the order of the library's sorted object.\<close>

definition header_members :: "string \<Rightarrow> download_target \<Rightarrow> (string \<times> json) list" where
  "header_members url t =
     [(''_cache_control'', String (t_cache_control t)), (''_etag'', String (t_etag t)),
      (''_mod'', String (t_mod t)), (''_url'', String url)]"

definition header_object :: "string \<Rightarrow> download_target \<Rightarrow> json" where
  "header_object url t = Object (header_members url t)"

definition spliced_header :: "string \<Rightarrow> download_target \<Rightarrow> string" where
  "spliced_header url t =
     ''{\"_cache_control\":'' @ quoted (t_cache_control t) @
     '',\"_etag\":'' @ quoted (t_etag t) @
     '',\"_mod\":'' @ quoted (t_mod t) @
     '',\"_url\":'' @ quoted url @ '',''"

text \<open>\<^verbatim>\<open>m_mod_etag\<close> is default-constructed (\<^verbatim>\<open>null\<close>) and later holds what
  \<open>read_mod_and_etag\<close> or \<open>finalize_transfer\<close> put there; the four assignments of
  \<open>finalize_transfer\<close> need it to be \<^verbatim>\<open>null\<close> or an object.\<close>

definition null_or_object :: "json \<Rightarrow> bool" where
  "null_or_object j = (case j of Null \<Rightarrow> True | Object _ \<Rightarrow> True | _ \<Rightarrow> False)"

text \<open>The object that results from putting members into an object one after the other,
  as the parser and \<^verbatim>\<open>operator[]\<close> do.\<close>

definition insert_members :: "(string \<times> json) list \<Rightarrow> (string \<times> json) list
    \<Rightarrow> (string \<times> json) list" where
  "insert_members acc ms = foldl (\<lambda>a (k, v). obj_set k v a) acc ms"

text \<open>The members that \<open>parse_members\<close> reads, in the order of the text, without the
  object they are put into: \<open>parse_members acc s\<close> puts the members of
  \<open>member_list s\<close> into \<open>acc\<close>. Used in the proofs about the spliced file.\<close>

function member_list :: "string \<Rightarrow> ((string \<times> json) list \<times> string) option" where
  "member_list s =
     (case skip_ws s of
        [] \<Rightarrow> None
      | c # cs \<Rightarrow>
          if c \<noteq> CHR 0x22 then None
          else
            (case scan_string U_Accept cs of
               None \<Rightarrow> None
             | Some (k, r) \<Rightarrow>
                 (case skip_ws r of
                    [] \<Rightarrow> None
                  | d # ds \<Rightarrow>
                      if d = CHR '':'' then
                        (case parse_value ds of
                           None \<Rightarrow> None
                         | Some (v, r') \<Rightarrow>
                             (case skip_ws r' of
                                [] \<Rightarrow> None
                              | e # es \<Rightarrow>
                                  if e = CHR ''}'' then Some ([(k, v)], es)
                                  else if e = CHR '','' \<and> length es < length s then
                                    (case member_list es of
                                       None \<Rightarrow> None
                                     | Some (ms, r'') \<Rightarrow> Some ((k, v) # ms, r''))
                                  else None))
                      else None)))"
  by pat_completeness auto
termination
  by (relation "measure length") auto

declare member_list.simps [simp del]

text \<open>What \<open>raw\<close> returns and writes for an archive, when it returns; and the payload
  that the splice of \<open>finalize_transfer\<close> copies: the staged bytes, or what \<open>raw\<close>
  wrote from them when the URL ends in \<^verbatim>\<open>.bz2\<close>.\<close>

definition decompressed :: "archive \<Rightarrow> (bool \<times> string) option" where
  "decompressed a =
     (case a of
        OpenFails \<Rightarrow> Some (False, [])
      | HeaderFails \<Rightarrow> Some (False, [])
      | Entry rs \<Rightarrow>
          (case read_loop rs [] of
             (None, written) \<Rightarrow> Some (True, written)
           | (Some msg, written) \<Rightarrow> None))"

definition spliced_payload :: "finalize_env \<Rightarrow> string \<Rightarrow> string \<Rightarrow> string option" where
  "spliced_payload env url bytes =
     (if ends_with url ''.bz2'' then map_option snd (decompressed (env_libarchive env bytes))
      else Some bytes)"

text \<open>\<^verbatim>\<open>is_object()\<close> of the library.\<close>

definition is_object :: "json \<Rightarrow> bool" where
  "is_object j = (case j of Object _ \<Rightarrow> True | _ \<Rightarrow> False)"

text \<open>Follows the spec's words, for comparison with \<open>extract_subjson\<close>: the scan
  "tracks an escaped flag for backslash-escaped characters, and counts unescaped
  double-quote characters". Here the flag marks exactly the character after an
  unescaped backslash.\<close>

fun spec_extract_subjson :: "string \<Rightarrow> string \<Rightarrow> bool \<Rightarrow> nat \<Rightarrow> string" where
  "spec_extract_subjson [] result escaped i = []"
| "spec_extract_subjson (next # s) result escaped i =
     (if escaped then spec_extract_subjson s (result @ [next]) False i
      else if next = CHR 0x22 then
        (if i + 1 = 4 * 4 then result @ [CHR 0x22, CHR ''}'']
         else spec_extract_subjson s (result @ [next]) False (i + 1))
      else if next = CHR 0x5C then spec_extract_subjson s (result @ [next]) True i
      else spec_extract_subjson s (result @ [next]) False i)"

section \<open>Example data\<close>

text \<open>A completed transfer of the source \<open>url\<close> with the response headers of the
  spec's example, an object that waits for it, and the environment of a call.\<close>

definition transfer_done :: "string \<Rightarrow> int \<Rightarrow> int \<Rightarrow> download_target" where
  "transfer_done url res status =
     (DownloadTarget ''noarch'' url ''tmp/staged'')
       \<lparr>t_result := res, t_http_status := status, t_etag := ''E'', t_mod := ''M'',
        t_cache_control := ''C''\<rparr>"

definition subdir_waiting :: "string \<Rightarrow> download_target \<Rightarrow> subdir_data" where
  "subdir_waiting url t =
     \<lparr>m_loaded = False, m_download_complete = False, m_repodata_url = url,
      m_name = ''noarch'', m_json_fn = ''cache/abc.json'', m_solv_fn = ''cache/abc.solv'',
      m_is_noarch = True, m_json_cache_valid = False, m_solv_cache_valid = False,
      m_mod_etag = Null, m_temp_file = Some ''tmp/staged'', m_target = Some t\<rparr>"

definition env_at :: "int \<Rightarrow> (string \<Rightarrow> archive) \<Rightarrow> finalize_env" where
  "env_at t la =
     \<lparr>env_now = t, env_final_file_opens = True, env_cache_dir_ok = True, env_libarchive = la,
      env_decompress_tmp = ''tmp/decompressed''\<rparr>"

text \<open>A cache directory with a json cache written at time 10, a derived cache written
  at time 20 and a staged download.\<close>

definition cached_files :: "string \<Rightarrow> string \<Rightarrow> filesystem" where
  "cached_files json staged =
     [''cache/abc.json'' \<mapsto> \<lparr>content = json, mtime = 10\<rparr>,
      ''cache/abc.solv'' \<mapsto> \<lparr>content = ''solv'', mtime = 20\<rparr>,
      ''tmp/staged'' \<mapsto> \<lparr>content = staged, mtime = 90\<rparr>]"

text \<open>An object as the constructor leaves it, before \<open>load\<close>: nothing loaded, no
  transfer target, no staged file.\<close>

definition subdir_new :: "string \<Rightarrow> subdir_data" where
  "subdir_new url =
     \<lparr>m_loaded = False, m_download_complete = False, m_repodata_url = url,
      m_name = ''noarch'', m_json_fn = ''cache/abc.json'', m_solv_fn = ''cache/abc.solv'',
      m_is_noarch = True, m_json_cache_valid = False, m_solv_cache_valid = False,
      m_mod_etag = Null, m_temp_file = None, m_target = None\<rparr>"

text \<open>Two cache files as \<open>finalize_transfer\<close> writes them, the second with a
  \<^verbatim>\<open>max-age\<close> one above the largest 32-bit \<^verbatim>\<open>int\<close>.\<close>

definition fresh_doc :: string where
  "fresh_doc = ''{\"_cache_control\":\"public, max-age=1200\",\"_etag\":\"E\",\"_mod\":\"M\",\"_url\":\"U\",\"pkg\":1}''"

definition huge_doc :: string where
  "huge_doc = ''{\"_cache_control\":\"max-age=2147483648\",\"_etag\":\"E\",\"_mod\":\"M\",\"_url\":\"U\",\"pkg\":1}''"

text \<open>Two behaviours of the archive library on a damaged stream: the entry header
  cannot be read; the header is read and a later read fails.\<close>

definition bz2_header_unreadable :: "string \<Rightarrow> archive" where
  "bz2_header_unreadable bytes = HeaderFails"

definition bz2_corrupt_block :: "string \<Rightarrow> archive" where
  "bz2_corrupt_block bytes = Entry [Block ''{\"pk'', ReadFailure ''bzip decompression failed'']"

text \<open>A URL with a backslash, and the cache file that \<open>finalize_transfer\<close> writes for it.\<close>

definition backslash_url :: string where
  "backslash_url = ''http://h/a'' @ [CHR 0x5C] @ ''b''"

definition backslash_doc :: string where
  "backslash_doc =
     ''{\"_cache_control\":\"C\",\"_etag\":\"E\",\"_mod\":\"M\",\"_url\":\"http://h/a'' @
     [CHR 0x5C, CHR 0x5C] @ ''b\",\"pkg\":1}''"

section \<open>Properties\<close>

subsection \<open>The parser reads back the strings that \<open>dump\<close> writes\<close>

lemma utf8_reject_absorbing: "foldl utf8_step U_Reject bs = U_Reject"
  by (induction bs) simp_all

lemma utf8_step_not_reject:
  "foldl utf8_step st (b # bs) = U_Accept \<Longrightarrow> utf8_step st b \<noteq> U_Reject"
  using utf8_reject_absorbing [of bs] by auto

lemma utf8_step_high:
  "st \<noteq> U_Accept \<Longrightarrow> utf8_step st b \<noteq> U_Reject \<Longrightarrow> 0x80 \<le> b"
  by (cases st) (auto simp add: in_range_def split: if_splits)

lemma utf8_step_ascii: "b < 0x80 \<Longrightarrow> utf8_step U_Accept b = U_Accept"
  by simp

lemma escape_char_high: "0x80 \<le> (of_char c :: nat) \<Longrightarrow> escape_char c = [c]"
  by (simp add: escape_char_def Let_def)

lemma scan_string_plain:
  assumes "st \<noteq> U_Accept \<or> (c \<noteq> CHR 0x22 \<and> c \<noteq> CHR 0x5C \<and> 0x20 \<le> (of_char c :: nat))"
    and "utf8_step st (of_char c) \<noteq> U_Reject"
  shows "scan_string st (c # cs) = prepend [c] (scan_string (utf8_step st (of_char c)) cs)"
  using assms by (auto simp add: Let_def)

lemma scan_string_simple_escape:
  assumes "simple_escape e = Some ch" and "e \<noteq> CHR ''u''"
  shows "scan_string U_Accept (CHR 0x5C # e # r) = prepend [ch] (scan_string U_Accept r)"
  using assms by simp

lemma hexval_hex_digit: "n < 16 \<Longrightarrow> hexval (hex_digit n) = Some n"
  by (auto simp add: hexval_def hex_digit_def in_range_def Let_def)

lemma scan_string_u00:
  assumes "b \<le> 0x1F"
  shows "scan_string U_Accept
           ([CHR 0x5C, CHR ''u'', CHR ''0'', CHR ''0'', hex_digit (b div 16), hex_digit (b mod 16)] @ r) =
         prepend [char_of b] (scan_string U_Accept r)"
proof -
  have d: "b div 16 < 16" "b mod 16 < 16" using assms by auto
  have h: "hex4 (CHR ''0'' # CHR ''0'' # hex_digit (b div 16) # hex_digit (b mod 16) # r) = Some b"
    using hexval_hex_digit [OF d(1)] hexval_hex_digit [OF d(2)]
    by (simp add: hex4_def hexval_def in_range_def)
  have c: "scan_codepoint (CHR ''0'' # CHR ''0'' # hex_digit (b div 16) # hex_digit (b mod 16) # r) =
      Some (b, 4)"
    using assms by (simp add: scan_codepoint_def h in_range_def)
  have e: "utf8_encode b = [char_of b]"
    using assms by (simp add: utf8_encode_def)
  show ?thesis
    by (simp add: c e)
qed


lemma of_char_eqD: "of_char c = (n::nat) \<Longrightarrow> c = char_of n"
  by (metis char_of_char)

lemma scan_string_escape_ascii:
  assumes "(of_char c :: nat) < 0x80"
  shows "scan_string U_Accept (escape_char c @ r) = prepend [c] (scan_string U_Accept r)"
proof -
  let ?b = "of_char c :: nat"
  consider (special) "?b \<in> {0x08, 0x09, 0x0A, 0x0C, 0x0D, 0x22, 0x5C}"
    | (control) "?b \<notin> {0x08, 0x09, 0x0A, 0x0C, 0x0D, 0x22, 0x5C}" "?b \<le> 0x1F"
    | (plain) "?b \<notin> {0x08, 0x09, 0x0A, 0x0C, 0x0D, 0x22, 0x5C}" "0x20 \<le> ?b"
    by fastforce
  then show ?thesis
  proof cases
    case special
    have inj: "\<And>d. ?b = of_char d \<Longrightarrow> c = d" by simp
    from special have "c \<in> {CHR 0x08, CHR 0x09, CHR 0x0A, CHR 0x0C, CHR 0x0D, CHR 0x22, CHR 0x5C}"
      by (auto intro!: inj)
    then show ?thesis
      by (auto simp add: escape_char_def simple_escape_def)
  next
    case control
    have "c = char_of ?b" by simp
    then show ?thesis
      using control scan_string_u00 [of ?b r]
      by (simp add: escape_char_def Let_def)
  next
    case plain
    then have ne: "c \<noteq> CHR 0x22" "c \<noteq> CHR 0x5C" by auto
    have esc: "escape_char c = [c]"
      using plain by (auto simp add: escape_char_def Let_def)
    show ?thesis
      using scan_string_plain [of U_Accept c r] plain ne assms
      by (simp add: esc)
  qed
qed

lemma scan_string_dump:
  assumes "foldl utf8_step st (map of_char s) = U_Accept"
  shows "scan_string st (concat (map escape_char s) @ CHR 0x22 # r) = Some (s, r)"
  using assms
proof (induction s arbitrary: st)
  case Nil
  then show ?case by simp
next
  case (Cons c s)
  let ?b = "of_char c :: nat"
  let ?st' = "utf8_step st ?b"
  let ?rest = "concat (map escape_char s) @ CHR 0x22 # r"
  from Cons.prems have ok: "?st' \<noteq> U_Reject"
    using utf8_step_not_reject [of st ?b "map of_char s"] by simp
  from Cons.prems have "foldl utf8_step ?st' (map of_char s) = U_Accept" by simp
  then have ih: "scan_string ?st' ?rest = Some (s, r)" by (rule Cons.IH)
  show ?case
  proof (cases "st = U_Accept \<and> ?b < 0x80")
    case True
    then have "?st' = U_Accept" by simp
    then show ?thesis
      using scan_string_escape_ascii [of c ?rest] True ih
      by (simp add: prepend_def)
  next
    case False
    then have high: "0x80 \<le> ?b"
      using utf8_step_high [of st ?b] ok by (cases "st = U_Accept") auto
    then have esc: "escape_char c = [c]" by (rule escape_char_high)
    have ne: "c \<noteq> CHR 0x22" "c \<noteq> CHR 0x5C" using high by auto
    have "scan_string st (c # ?rest) = prepend [c] (scan_string ?st' ?rest)"
      by (rule scan_string_plain) (use high ne ok in auto)
    then show ?thesis
      using ih by (simp add: esc prepend_def)
  qed
qed

lemma scan_string_quoted:
  "valid_utf8 s \<Longrightarrow> scan_string U_Accept (concat (map escape_char s) @ CHR 0x22 # r) = Some (s, r)"
  unfolding valid_utf8_def by (rule scan_string_dump)

subsection \<open>The parser consumes its input\<close>

lemma prepend_Some:
  "prepend t x = Some (u, r) \<Longrightarrow> \<exists>u'. x = Some (u', r) \<and> u = t @ u'"
  by (auto simp add: prepend_def split: option.splits)

lemma scan_string_shorter:
  "scan_string st s = Some (t, r) \<Longrightarrow> length r < length s"
proof (induction st s arbitrary: t r rule: scan_string.induct)
  case (1 st)
  then show ?case by simp
next
  case (2 st c cs)
  show ?case
  proof (cases "st = U_Accept \<and> c = CHR 0x22")
    case True
    then show ?thesis using "2.prems" by simp
  next
    case nq: False
    show ?thesis
    proof (cases "st = U_Accept \<and> c = CHR 0x5C")
      case True
      then obtain e r0 where cs: "cs = e # r0"
        using "2.prems" by (cases cs) auto
      show ?thesis
      proof (cases "e = CHR ''u''")
        case u: True
        then obtain cp n where cp: "scan_codepoint r0 = Some (cp, n)"
          using "2.prems" True cs by (auto split: option.splits)
        then have "prepend (utf8_encode cp) (scan_string U_Accept (drop n r0)) = Some (t, r)"
          using "2.prems" True cs u by simp
        then obtain u' where "scan_string U_Accept (drop n r0) = Some (u', r)"
          using prepend_Some by blast
        then have "length r < length (drop n r0)"
          using "2.IH"(1) [OF nq True cs u cp refl] by blast
        then show ?thesis using cs by simp
      next
        case nu: False
        then obtain ch where ch: "simple_escape e = Some ch"
          using "2.prems" True cs by (auto split: option.splits)
        then have "prepend [ch] (scan_string U_Accept r0) = Some (t, r)"
          using "2.prems" True cs nu by simp
        then obtain u' where "scan_string U_Accept r0 = Some (u', r)"
          using prepend_Some by blast
        then have "length r < length r0"
          using "2.IH"(2) [OF nq True cs nu ch] by blast
        then show ?thesis using cs by simp
      qed
    next
      case nb: False
      then have nc: "\<not> (st = U_Accept \<and> (of_char c :: nat) < 0x20)"
        using "2.prems" nq by auto
      have nr: "utf8_step st (of_char c) \<noteq> U_Reject"
        using "2.prems" nq nb nc by (auto simp add: Let_def split: if_splits)
      then have "prepend [c] (scan_string (utf8_step st (of_char c)) cs) = Some (t, r)"
        using "2.prems" nq nb nc by (auto simp add: Let_def)
      then obtain u' where "scan_string (utf8_step st (of_char c)) cs = Some (u', r)"
        using prepend_Some by blast
      then have "length r < length cs"
        using "2.IH"(3) [OF nq nb nc refl nr] by blast
      then show ?thesis by simp
    qed
  qed
qed


lemma scan_literal_shorter: "scan_literal s = Some (v, r) \<Longrightarrow> length r < length s"
  by (cases s) (auto simp add: scan_literal_def split: if_splits)

lemma scan_number_shorter:
  assumes "scan_number s = Some (v, r)"
  shows "length r < length s"
proof -
  define neg where "neg = (take 1 s = ''-'')"
  define s1 where "s1 = (if neg then drop 1 s else s)"
  define ip where "ip = (if take 1 s1 = ''0'' then ''0'' else takeWhile is_digit s1)"
  define s2 where "s2 = drop (length ip) s1"
  define has_frac where "has_frac = (take 1 s2 = ''.'')"
  define fr where "fr = (if has_frac then takeWhile is_digit (drop 1 s2) else [])"
  define s3 where "s3 = (if has_frac then drop (1 + length fr) s2 else s2)"
  define has_exp where "has_exp = (take 1 s3 = ''e'' \<or> take 1 s3 = ''E'')"
  define sg where "sg = (if has_exp \<and> (take 1 (drop 1 s3) = ''+'' \<or> take 1 (drop 1 s3) = ''-'')
                then 1 else (0::nat))"
  define ex where "ex = (if has_exp then takeWhile is_digit (drop (1 + sg) s3) else [])"
  define s4 where "s4 = (if has_exp then drop (1 + sg + length ex) s3 else s3)"
  have r: "r = s4" and ip: "ip \<noteq> []"
    using assms
    unfolding scan_number_def Let_def neg_def [symmetric] s1_def [symmetric] ip_def [symmetric]
      s2_def [symmetric] has_frac_def [symmetric] fr_def [symmetric] s3_def [symmetric]
      has_exp_def [symmetric] sg_def [symmetric] ex_def [symmetric] s4_def [symmetric]
    by (auto split: if_splits)
  have "length ip \<le> length s1"
    unfolding ip_def by (cases s1) (auto simp add: length_takeWhile_le)
  then have "length s2 < length s1"
    using ip unfolding s2_def by (cases ip) auto
  moreover have "length s1 \<le> length s" unfolding s1_def by simp
  moreover have "length s3 \<le> length s2" unfolding s3_def by simp
  moreover have "length s4 \<le> length s3" unfolding s4_def by simp
  ultimately show ?thesis using r by simp
qed

lemma parse_shorter:
  "parse_value s = Some (v, r) \<longrightarrow> length r < length s"
  "parse_elements acc1 s1 = Some (v1, r1) \<longrightarrow> length r1 < length s1"
  "parse_members acc2 s2 = Some (v2, r2) \<longrightarrow> length r2 < length s2"
proof (induction s and acc1 s1 and acc2 s2 arbitrary: v r and v1 r1 and v2 r2
    rule: parse_value_parse_elements_parse_members.induct)
  case (1 s)
  show ?case
  proof
    assume a: "parse_value s = Some (v, r)"
    then obtain c cs where sk: "skip_ws s = c # cs"
      by (subst (asm) parse_value.simps) (auto split: list.splits)
    have len: "length cs < length s" using sk by (rule skip_ws_Cons_length)
    consider (obj) "c = CHR ''{''" | (arr) "c \<noteq> CHR ''{''" "c = CHR ''[''"
      | (str) "c \<noteq> CHR ''{''" "c \<noteq> CHR ''[''" "c = CHR 0x22"
      | (lit) "c \<noteq> CHR ''{''" "c \<noteq> CHR ''[''" "c \<noteq> CHR 0x22"
          "c = CHR ''t'' \<or> c = CHR ''f'' \<or> c = CHR ''n''"
      | (num) "c \<noteq> CHR ''{''" "c \<noteq> CHR ''[''" "c \<noteq> CHR 0x22"
          "\<not> (c = CHR ''t'' \<or> c = CHR ''f'' \<or> c = CHR ''n'')"
      by blast
    then show "length r < length s"
    proof cases
      case obj
      then obtain d ds where sk2: "skip_ws cs = d # ds"
        using a sk by (subst (asm) parse_value.simps) (auto split: list.splits)
      have len2: "length ds < length cs" using sk2 by (rule skip_ws_Cons_length)
      show ?thesis
      proof (cases "d = CHR ''}''")
        case True
        then have "r = ds"
          using a sk sk2 obj by (subst (asm) parse_value.simps) simp
        then show ?thesis using len len2 by simp
      next
        case False
        then have "parse_members [] (d # ds) = Some (v, r)"
          using a sk sk2 obj by (subst (asm) parse_value.simps) simp
        then have "length r < length (d # ds)"
          using "1.IH"(1) [OF sk obj sk2 False] by blast
        then show ?thesis using len len2 by simp
      qed
    next
      case arr
      then obtain d ds where sk2: "skip_ws cs = d # ds"
        using a sk by (subst (asm) parse_value.simps) (auto split: list.splits)
      have len2: "length ds < length cs" using sk2 by (rule skip_ws_Cons_length)
      show ?thesis
      proof (cases "d = CHR '']''")
        case True
        then have "r = ds"
          using a sk sk2 arr by (subst (asm) parse_value.simps) simp
        then show ?thesis using len len2 by simp
      next
        case False
        then have "parse_elements [] (d # ds) = Some (v, r)"
          using a sk sk2 arr by (subst (asm) parse_value.simps) simp
        then have "length r < length (d # ds)"
          using "1.IH"(2) [OF sk arr sk2 False] by blast
        then show ?thesis using len len2 by simp
      qed
    next
      case str
      then obtain t where "scan_string U_Accept cs = Some (t, r)"
        using a sk by (subst (asm) parse_value.simps) (auto split: option.splits)
      then have "length r < length cs" by (rule scan_string_shorter)
      then show ?thesis using len by simp
    next
      case lit
      then have "scan_literal (c # cs) = Some (v, r)"
        using a sk by (subst (asm) parse_value.simps) auto
      then have "length r < length (c # cs)" by (rule scan_literal_shorter)
      then show ?thesis using len by simp
    next
      case num
      then have "scan_number (c # cs) = Some (v, r)"
        using a sk by (subst (asm) parse_value.simps) auto
      then have "length r < length (c # cs)" by (rule scan_number_shorter)
      then show ?thesis using len by simp
    qed
  qed
next
  case (2 acc s)
  show ?case
  proof
    assume a: "parse_elements acc s = Some (v1, r1)"
    then obtain v r where pv: "parse_value s = Some (v, r)"
      by (subst (asm) parse_elements.simps) (auto split: option.splits)
    then have len: "length r < length s" using "2.IH"(1) by blast
    obtain c cs where sk: "skip_ws r = c # cs"
      using a pv by (subst (asm) parse_elements.simps) (auto split: list.splits)
    have len2: "length cs < length r" using sk by (rule skip_ws_Cons_length)
    show "length r1 < length s"
    proof (cases "c = CHR '']''")
      case True
      then have "r1 = cs"
        using a pv sk by (subst (asm) parse_elements.simps) simp
      then show ?thesis using len len2 by simp
    next
      case False
      then have g: "c = CHR '','' \<and> length cs < length s"
        using a pv sk by (subst (asm) parse_elements.simps) (auto split: if_splits)
      then have "parse_elements (acc @ [v]) cs = Some (v1, r1)"
        using a pv sk False by (subst (asm) parse_elements.simps) simp
      then have "length r1 < length cs"
        using "2.IH"(2) [OF pv refl sk False g] by blast
      then show ?thesis using len len2 by simp
    qed
  qed
next
  case (3 acc s)
  show ?case
  proof
    assume a: "parse_members acc s = Some (v2, r2)"
    then obtain c cs where sk: "skip_ws s = c # cs"
      by (subst (asm) parse_members.simps) (auto split: list.splits)
    have c: "\<not> c \<noteq> CHR 0x22"
      using a sk by (subst (asm) parse_members.simps) (auto split: if_splits)
    obtain k r where ss: "scan_string U_Accept cs = Some (k, r)"
      using a sk c by (subst (asm) parse_members.simps) (auto split: option.splits)
    obtain d ds where sk2: "skip_ws r = d # ds"
      using a sk c ss by (subst (asm) parse_members.simps) (auto split: list.splits)
    have g: "d = CHR '':'' \<and> length ds < length s"
      using a sk c ss sk2 by (subst (asm) parse_members.simps) (auto split: if_splits)
    obtain v r' where pv: "parse_value ds = Some (v, r')"
      using a sk c ss sk2 g by (subst (asm) parse_members.simps) (auto split: option.splits)
    have len: "length r' < length ds"
      using "3.IH"(1) [OF sk c ss refl sk2 g] pv by blast
    obtain e es where sk3: "skip_ws r' = e # es"
      using a sk c ss sk2 g pv by (subst (asm) parse_members.simps) (auto split: list.splits)
    have len3: "length es < length r'" using sk3 by (rule skip_ws_Cons_length)
    show "length r2 < length s"
    proof (cases "e = CHR ''}''")
      case True
      then have "r2 = es"
        using a sk c ss sk2 g pv sk3 by (subst (asm) parse_members.simps) simp
      then show ?thesis using len len3 g by simp
    next
      case False
      then have g2: "e = CHR '','' \<and> length es < length s"
        using a sk c ss sk2 g pv sk3 by (subst (asm) parse_members.simps) (auto split: if_splits)
      then have "parse_members (obj_set k v acc) es = Some (v2, r2)"
        using a sk c ss sk2 g pv sk3 False by (subst (asm) parse_members.simps) simp
      then have "length r2 < length es"
        using "3.IH"(2) [OF sk c ss refl sk2 g pv refl sk3 False g2] by blast
      then show ?thesis using g2 by simp
    qed
  qed
qed

text \<open>So the comparisons of lengths that make the parser's recursion well-founded
  never fail.\<close>

lemma parse_members_unguarded:
  "parse_members acc s =
     (case skip_ws s of
        [] \<Rightarrow> None
      | c # cs \<Rightarrow>
          if c \<noteq> CHR 0x22 then None
          else
            (case scan_string U_Accept cs of
               None \<Rightarrow> None
             | Some (k, r) \<Rightarrow>
                 (case skip_ws r of
                    [] \<Rightarrow> None
                  | d # ds \<Rightarrow>
                      if d = CHR '':'' then
                        (case parse_value ds of
                           None \<Rightarrow> None
                         | Some (v, r') \<Rightarrow>
                             (case skip_ws r' of
                                [] \<Rightarrow> None
                              | e # es \<Rightarrow>
                                  if e = CHR ''}'' then Some (Object (obj_set k v acc), es)
                                  else if e = CHR '',''
                                  then parse_members (obj_set k v acc) es
                                  else None))
                      else None)))"
proof -
  have g1: "length ds < length s"
    if "skip_ws s = c # cs" "scan_string U_Accept cs = Some (k, r)" "skip_ws r = d # ds"
    for c cs k r d ds
    using skip_ws_Cons_length [OF that(1)] scan_string_shorter [OF that(2)]
      skip_ws_Cons_length [OF that(3)] by simp
  have g2: "length es < length s"
    if "skip_ws s = c # cs" "scan_string U_Accept cs = Some (k, r)" "skip_ws r = d # ds"
      "parse_value ds = Some (v, r')" "skip_ws r' = e # es"
    for c cs k r d ds v r' e es
    using g1 [OF that(1-3)] parse_shorter(1) [of ds v r'] that(4)
      skip_ws_Cons_length [OF that(5)] by simp
  show ?thesis
    by (subst parse_members.simps) (auto split: list.splits option.splits simp add: g1 g2)
qed

lemma parse_elements_unguarded:
  "parse_elements acc s =
     (case parse_value s of
        None \<Rightarrow> None
      | Some (v, r) \<Rightarrow>
          (case skip_ws r of
             [] \<Rightarrow> None
           | c # cs \<Rightarrow>
               if c = CHR '']'' then Some (Array (acc @ [v]), cs)
               else if c = CHR '','' then parse_elements (acc @ [v]) cs
               else None))"
proof -
  have g: "length cs < length s"
    if "parse_value s = Some (v, r)" "skip_ws r = c # cs" for v r c cs
    using parse_shorter(1) [of s v r] that(1) skip_ws_Cons_length [OF that(2)] by simp
  show ?thesis
    by (subst parse_elements.simps) (auto split: list.splits option.splits simp add: g)
qed

lemma skip_ws_idem: "skip_ws (skip_ws s) = skip_ws s"
  by (induction s) auto

lemma parse_members_skip_ws: "parse_members acc (skip_ws s) = parse_members acc s"
  by (subst parse_members_unguarded, subst (2) parse_members_unguarded) (simp add: skip_ws_idem)

subsection \<open>Objects: members in the order of the text\<close>

lemma parse_members_member_list:
  "parse_members acc s =
     (case member_list s of
        None \<Rightarrow> None
      | Some (ms, r) \<Rightarrow> Some (Object (insert_members acc ms), r))"
proof (induction s arbitrary: acc rule: member_list.induct)
  case (1 s)
  have g2: "length es < length s"
    if "skip_ws s = c # cs" "scan_string U_Accept cs = Some (k, r)" "skip_ws r = d # ds"
      "parse_value ds = Some (v, r')" "skip_ws r' = e # es"
    for c cs k r d ds v r' e es
    using skip_ws_Cons_length [OF that(1)] scan_string_shorter [OF that(2)]
      skip_ws_Cons_length [OF that(3)] parse_shorter(1) [of ds v r'] that(4)
      skip_ws_Cons_length [OF that(5)] by simp
  show ?case
    apply (subst parse_members_unguarded)
    apply (subst member_list.simps)
    apply (auto split: list.splits option.splits simp add: g2 insert_members_def "1.IH")
    done
qed


lemma parse_value_quoted:
  assumes "valid_utf8 v"
  shows "parse_value (quoted v @ r) = Some (String v, r)"
  by (subst parse_value.simps)
    (simp add: quoted_def is_ws_def scan_string_quoted [OF assms])

lemma parse_members_header_step:
  assumes "valid_utf8 k" and "valid_utf8 v"
  shows "parse_members acc (quoted k @ CHR '':'' # quoted v @ CHR '','' # rest) =
         parse_members (obj_set k (String v) acc) rest"
proof -
  have q: "quoted k @ CHR '':'' # quoted v @ CHR '','' # rest =
      CHR 0x22 # (concat (map escape_char k) @ CHR 0x22 # CHR '':'' # quoted v @ CHR '','' # rest)"
    by (simp add: quoted_def)
  show ?thesis
    unfolding q
    by (subst parse_members_unguarded)
      (simp add: is_ws_def scan_string_quoted [OF assms(1)] parse_value_quoted [OF assms(2)])
qed

text \<open>An object is a sorted list of members with distinct keys, so it is determined by
  the map from keys to values; putting the members of a parsed object into another
  object gives what putting the members of the text into it gives.\<close>

lemma obj_set_keys: "set (map fst (obj_set k v ms)) = insert k (set (map fst ms))"
  by (induction ms) (force split: if_splits)+

lemma obj_set_sorted:
  "sorted_wrt (<) (map fst ms) \<Longrightarrow> sorted_wrt (<) (map fst (obj_set k v ms))"
proof (induction ms)
  case Nil
  then show ?case by simp
next
  case (Cons m ms)
  obtain k' v' where m: "m = (k', v')" by (cases m)
  have "\<forall>x\<in>set (map fst (obj_set k v ms)). k' < x" if "k' < k"
    using Cons.prems that unfolding obj_set_keys m by auto
  then show ?case
    using Cons m by (auto simp add: not_less)
qed

lemma map_of_obj_set: "map_of (obj_set k v ms) = (map_of ms)(k \<mapsto> v)"
  by (induction ms) (auto simp add: fun_upd_twist)

lemma insert_members_snoc:
  "insert_members acc (ms @ [(k, v)]) = obj_set k v (insert_members acc ms)"
  by (simp add: insert_members_def)

lemma insert_members_sorted:
  "sorted_wrt (<) (map fst acc) \<Longrightarrow> sorted_wrt (<) (map fst (insert_members acc ms))"
  by (induction ms rule: rev_induct) (auto simp add: insert_members_def obj_set_sorted)

lemma map_of_insert_members:
  "map_of (insert_members acc ms) = map_of acc ++ map_of (insert_members [] ms)"
proof (induction ms rule: rev_induct)
  case Nil
  then show ?case by (simp add: insert_members_def)
next
  case (snoc m ms)
  obtain k v where m: "m = (k, v)" by (cases m)
  show ?case
    unfolding m insert_members_snoc map_of_obj_set snoc.IH
    by (auto simp add: map_add_def fun_eq_iff split: option.splits)
qed

lemma map_of_insert_members_distinct:
  "distinct (map fst ms) \<Longrightarrow> map_of (insert_members acc ms) = map_of acc ++ map_of ms"
proof (induction ms rule: rev_induct)
  case Nil
  then show ?case by (simp add: insert_members_def)
next
  case (snoc m ms)
  obtain k v where m: "m = (k, v)" by (cases m)
  have "map_of ms k = None" using snoc.prems m by (auto simp add: map_of_eq_None_iff)
  then have "map_of (ms @ [(k, v)]) = (map_of ms)(k \<mapsto> v)"
    by (auto simp add: map_add_def fun_eq_iff split: option.splits)
  then show ?case
    unfolding m insert_members_snoc map_of_obj_set using snoc
    by (auto simp add: map_add_def fun_eq_iff split: option.splits)
qed

lemma sorted_map_of_unique:
  fixes xs ys :: "('a::linorder \<times> 'b) list"
  assumes "sorted_wrt (<) (map fst xs)" and "sorted_wrt (<) (map fst ys)"
    and "map_of xs = map_of ys"
  shows "xs = ys"
  using assms
proof (induction xs arbitrary: ys)
  case Nil
  then show ?case by simp
next
  case (Cons x xs)
  obtain k v where x: "x = (k, v)" by (cases x)
  have "dom (map_of (x # xs)) = dom (map_of ys)" using Cons.prems(3) by (rule arg_cong)
  then have ks: "insert k (fst ` set xs) = fst ` set ys"
    unfolding dom_map_of_conv_image_fst x by simp
  then obtain y ys' where ys: "ys = y # ys'" by (cases ys) auto
  obtain k' v' where y: "y = (k', v')" by (cases y)
  have lo: "\<forall>a\<in>fst ` set xs. k < a" "\<forall>a\<in>fst ` set ys'. k' < a"
    using Cons.prems(1,2) x y ys by auto
  have "k = k'"
  proof (rule ccontr)
    assume ne: "k \<noteq> k'"
    have "k \<in> fst ` set ys'" "k' \<in> fst ` set xs"
      using ks ne unfolding ys y by auto
    then have "k' < k" "k < k'" using lo by auto
    then show False by (rule less_asym)
  qed
  moreover have "v = v'"
    using Cons.prems(3) \<open>k = k'\<close> unfolding x ys y by (auto simp add: fun_eq_iff split: if_splits)
  moreover have "map_of xs = map_of ys'"
  proof
    fix a
    show "map_of xs a = map_of ys' a"
    proof (cases "a = k")
      case True
      have "k \<notin> fst ` set xs" "k \<notin> fst ` set ys'" using lo \<open>k = k'\<close> by auto
      then have "map_of xs k = None" "map_of ys' k = None"
        by (simp_all add: map_of_eq_None_iff)
      then show ?thesis unfolding True by simp
    next
      case False
      then show ?thesis
        using Cons.prems(3) \<open>k = k'\<close> unfolding x ys y by (auto simp add: fun_eq_iff split: if_splits)
    qed
  qed
  moreover have "sorted_wrt (<) (map fst xs)" "sorted_wrt (<) (map fst ys')"
    using Cons.prems(1,2) ys by auto
  ultimately show ?case
    using Cons.IH [of ys'] x y ys by simp
qed

lemma sorted_keys_distinct: "sorted_wrt (<) (map fst (ms :: (string \<times> json) list)) \<Longrightarrow> distinct (map fst ms)"
  using strict_sorted_iff by blast

lemma insert_members_parsed:
  assumes "sorted_wrt (<) (map fst acc)"
  shows "insert_members acc (insert_members [] ms) = insert_members acc ms"
proof (rule sorted_map_of_unique)
  have s: "sorted_wrt (<) (map fst (insert_members [] ms))"
    by (rule insert_members_sorted) simp
  show "sorted_wrt (<) (map fst (insert_members acc (insert_members [] ms)))"
    "sorted_wrt (<) (map fst (insert_members acc ms))"
    using assms by (rule insert_members_sorted)+
  show "map_of (insert_members acc (insert_members [] ms)) = map_of (insert_members acc ms)"
    using map_of_insert_members_distinct [OF sorted_keys_distinct [OF s], of acc]
      map_of_insert_members [of acc ms] by simp
qed

subsection \<open>Files, the header object and the splice\<close>

lemma utimensat_apply:
  "utimensat p now fs q = (if q = p then map_option (\<lambda>f. f\<lparr>mtime := now\<rparr>) (fs p) else fs q)"
  by (simp add: utimensat_def split: option.splits)

lemma flush_ofstream_apply:
  "flush_ofstream p bytes now fs q =
     (if q = p \<and> fs p \<noteq> None then Some \<lparr>content = bytes, mtime = now\<rparr> else fs q)"
  by (auto simp add: flush_ofstream_def split: option.splits)

lemma set_mod_etag_header:
  "null_or_object j \<Longrightarrow> set_mod_etag url t j = Inr (header_object url t)"
  by (cases j) (simp_all add: null_or_object_def set_mod_etag_def json_clear_def json_set_def
      header_object_def header_members_def)

lemma valid_utf8_key:
  "valid_utf8 ''_cache_control''" "valid_utf8 ''_etag''" "valid_utf8 ''_mod''" "valid_utf8 ''_url''"
  by (simp_all add: valid_utf8_def)

lemma dump_header_object:
  assumes "valid_utf8 url" "valid_utf8 (t_etag t)" "valid_utf8 (t_mod t)"
    "valid_utf8 (t_cache_control t)"
  shows "\<exists>d. dump (header_object url t) = Inr d \<and> butlast d @ '','' = spliced_header url t"
  using assms
  by (simp add: header_object_def header_members_def dump_string_def valid_utf8_key spliced_header_def quoted_def
      escape_char_def butlast_append)


lemma splice_staged:
  assumes "m_temp_file s = Some staged" and "fs staged = Some f" and "staged \<noteq> m_json_fn s"
    and "fs (m_json_fn s) \<noteq> None"
    and "dump (m_mod_etag s) = Inr d"
  shows "\<exists>fs'. splice env (s, fs) =
           (Return True, s\<lparr>m_json_cache_valid := True, m_loaded := True, m_temp_file := None\<rparr>, fs') \<and>
         fs' (m_json_fn s) = Some \<lparr>content = butlast d @ '','' @ drop 1 (content f),
                                  mtime = env_now env\<rparr> \<and>
         fs' staged = None"
  using assms
  by (auto simp add: splice_def Let_def utimensat_apply flush_ofstream_apply
      destroy_TemporaryFile_def)

lemmas json_eval =
  parse_def parse_value.simps parse_members.simps parse_elements.simps is_ws_def prepend_def
  in_range_def read_mod_and_etag_def

lemma example_valid_utf8: "valid_utf8 ''U''" "valid_utf8 ''E''" "valid_utf8 ''M''" "valid_utf8 ''C''"
  by (simp_all add: valid_utf8_def)

lemma example_spliced_header:
  "spliced_header ''U'' (transfer_done url 0 status) =
     ''{\"_cache_control\":\"C\",\"_etag\":\"E\",\"_mod\":\"M\",\"_url\":\"U\",''"
  by (simp add: spliced_header_def quoted_def transfer_done_def DownloadTarget_def escape_char_def)

text \<open>The spliced file starts with the header's members; what follows them is read as
  the rest of the same object.\<close>

lemma quoted_plain_keys:
  "quoted ''_cache_control'' = ''\"_cache_control\"''" "quoted ''_etag'' = ''\"_etag\"''"
  "quoted ''_mod'' = ''\"_mod\"''" "quoted ''_url'' = ''\"_url\"''"
  by (simp_all add: quoted_def escape_char_def)

lemma spliced_header_quoted:
  "spliced_header url t @ rest =
     CHR ''{'' # quoted ''_cache_control'' @ CHR '':'' # quoted (t_cache_control t) @ CHR '','' #
     quoted ''_etag'' @ CHR '':'' # quoted (t_etag t) @ CHR '','' #
     quoted ''_mod'' @ CHR '':'' # quoted (t_mod t) @ CHR '','' #
     quoted ''_url'' @ CHR '':'' # quoted url @ CHR '','' # rest"
  by (simp add: spliced_header_def quoted_plain_keys)
lemma parse_value_spliced_header:
  assumes "valid_utf8 url" "valid_utf8 (t_etag t)" "valid_utf8 (t_mod t)"
    "valid_utf8 (t_cache_control t)"
  shows "parse_value (spliced_header url t @ rest) = parse_members (header_members url t) rest"
proof -
  have "parse_value (spliced_header url t @ rest) =
      parse_members []
        (quoted ''_cache_control'' @ CHR '':'' # quoted (t_cache_control t) @ CHR '','' #
         quoted ''_etag'' @ CHR '':'' # quoted (t_etag t) @ CHR '','' #
         quoted ''_mod'' @ CHR '':'' # quoted (t_mod t) @ CHR '','' #
         quoted ''_url'' @ CHR '':'' # quoted url @ CHR '','' # rest)"
    unfolding spliced_header_quoted
    by (subst parse_value.simps) (simp add: is_ws_def quoted_def)
  also have "\<dots> = parse_members (header_members url t) rest"
    by (simp add: parse_members_header_step valid_utf8_key assms header_members_def)
  finally show ?thesis .
qed

lemma member_list_starts_with_quote:
  assumes "member_list rest = Some (ms, r)"
  shows "\<exists>cs. skip_ws rest = CHR 0x22 # cs"
  using assms by (subst (asm) member_list.simps) (auto split: list.splits if_splits)

lemma parse_spliced_header:
  assumes "valid_utf8 url" "valid_utf8 (t_etag t)" "valid_utf8 (t_mod t)"
    "valid_utf8 (t_cache_control t)"
    and "member_list rest = Some (ms, r)" and "skip_ws r = []"
  shows "parse (spliced_header url t @ rest) =
           Some (Object (insert_members (header_members url t) ms))"
proof -
  have nb: "take 3 (spliced_header url t @ rest) \<noteq> [CHR 0xEF, CHR 0xBB, CHR 0xBF]"
    by (simp add: spliced_header_def)
  show ?thesis
    unfolding parse_def Let_def
    using nb assms(5,6)
    by (simp add: parse_value_spliced_header [OF assms(1-4)] parse_members_member_list)
qed

lemma header_members_sorted: "sorted_wrt (<) (map fst (header_members url t))"
  by (simp add: header_members_def)

lemma parse_object_member_list:
  assumes "parse (CHR ''{'' # rest) = Some (Object pm)" and "pm \<noteq> []"
  shows "\<exists>ms r. member_list rest = Some (ms, r) \<and> skip_ws r = [] \<and> pm = insert_members [] ms"
proof -
  obtain r where pv: "parse_value (CHR ''{'' # rest) = Some (Object pm, r)" and e: "skip_ws r = []"
    using assms(1) by (auto simp add: parse_def split: option.splits if_splits)
  obtain d ds where sk: "skip_ws rest = d # ds"
    using pv by (subst (asm) parse_value.simps) (auto simp add: is_ws_def split: list.splits)
  have "d \<noteq> CHR ''}''"
    using pv sk assms(2) by (subst (asm) parse_value.simps) (auto simp add: is_ws_def)
  then have "parse_members [] (skip_ws rest) = Some (Object pm, r)"
    using pv sk by (subst (asm) parse_value.simps) (simp add: is_ws_def)
  then have "parse_members [] rest = Some (Object pm, r)"
    by (simp add: parse_members_skip_ws)
  then show ?thesis
    using e by (auto simp add: parse_members_member_list split: option.splits)
qed

lemma parse_spliced_file:
  assumes "valid_utf8 url" "valid_utf8 (t_etag t)" "valid_utf8 (t_mod t)"
    "valid_utf8 (t_cache_control t)"
    and "parse (CHR ''{'' # rest) = Some (Object pm)" and "pm \<noteq> []"
  shows "parse (spliced_header url t @ rest) =
           Some (Object (insert_members (header_members url t) pm))"
proof -
  obtain ms r where m: "member_list rest = Some (ms, r)" "skip_ws r = []"
    "pm = insert_members [] ms"
    using parse_object_member_list [OF assms(5,6)] by blast
  show ?thesis
    unfolding m(3) insert_members_parsed [OF header_members_sorted]
    by (rule parse_spliced_header [OF assms(1-4) m(1,2)])
qed

text \<open>The new content: the splice after a download, with the decompression that
  precedes it for a \<^verbatim>\<open>.bz2\<close> URL.\<close>

lemma raw_returns:
  assumes "fs inp = Some f" and "fs out = Some \<lparr>content = [], mtime = now\<rparr>"
    and "decompressed (la (content f)) = Some (b, w)"
  shows "raw la now inp out fs = (Inr b, fs(out \<mapsto> \<lparr>content = w, mtime = now\<rparr>))"
  using assms
  by (auto simp add: raw_def decompressed_def fun_upd_idem
      split: archive.splits option.splits prod.splits)

lemma decompress_returns:
  assumes "m_temp_file s = Some staged" and "staged \<noteq> env_decompress_tmp env"
    and "fs staged = Some f"
    and "decompressed (env_libarchive env (content f)) = Some (b, w)"
  shows "decompress env (s, fs) =
      (Inr b, s\<lparr>m_temp_file := Some (env_decompress_tmp env)\<rparr>,
       (fs(env_decompress_tmp env \<mapsto> \<lparr>content = w, mtime = env_now env\<rparr>))(staged := None))"
proof -
  let ?fs1 = "TemporaryFile (env_decompress_tmp env) (env_now env) fs"
  have "raw (env_libarchive env) (env_now env) staged (env_decompress_tmp env) ?fs1 =
      (Inr b, ?fs1(env_decompress_tmp env \<mapsto> \<lparr>content = w, mtime = env_now env\<rparr>))"
    by (rule raw_returns [where f = f]) (use assms in \<open>auto simp add: TemporaryFile_def\<close>)
  then show ?thesis
    using assms(1)
    by (simp add: decompress_def Let_def TemporaryFile_def destroy_TemporaryFile_def)
qed

lemma finalize_transfer_new_content:
  assumes "m_target s = Some t" and "t_result t = 0"
    and "t_http_status t = 200 \<or> t_http_status t = 0"
    and "null_or_object (m_mod_etag s)"
    and "valid_utf8 (m_repodata_url s)" and "valid_utf8 (t_etag t)" and "valid_utf8 (t_mod t)"
    and "valid_utf8 (t_cache_control t)"
    and "env_final_file_opens env" and "env_cache_dir_ok env"
    and "m_temp_file s = Some staged" and "fs staged = Some f" and "staged \<noteq> m_json_fn s"
    and "spliced_payload env (m_repodata_url s) (content f) = Some payload"
    and "ends_with (m_repodata_url s) ''.bz2'' \<longrightarrow>
           staged \<noteq> env_decompress_tmp env \<and> env_decompress_tmp env \<noteq> m_json_fn s"
  shows "\<exists>fs'. finalize_transfer env (s, fs) =
           (Return True,
            s\<lparr>m_download_complete := True, m_mod_etag := header_object (m_repodata_url s) t,
              m_json_cache_valid := True, m_loaded := True, m_temp_file := None\<rparr>, fs') \<and>
         fs' (m_json_fn s) =
           Some \<lparr>content = spliced_header (m_repodata_url s) t @ drop 1 payload,
                 mtime = env_now env\<rparr> \<and>
         fs' staged = None \<and>
         (ends_with (m_repodata_url s) ''.bz2'' \<longrightarrow> fs' (env_decompress_tmp env) = None)"
proof -
  let ?url = "m_repodata_url s"
  let ?tmp = "env_decompress_tmp env"
  let ?s1 = "s\<lparr>m_download_complete := True, m_mod_etag := header_object ?url t\<rparr>"
  let ?fs1 = "fs(m_json_fn s \<mapsto> \<lparr>content = [], mtime = env_now env\<rparr>)"
  obtain d where d: "dump (header_object ?url t) = Inr d"
    "butlast d @ '','' = spliced_header ?url t"
    using dump_header_object [OF assms(5-8)] by blast
  show ?thesis
  proof (cases "ends_with ?url ''.bz2''")
    case False
    then have p: "payload = content f"
      using assms(14) by (simp add: spliced_payload_def)
    have fin: "finalize_transfer env (s, fs) = splice env (?s1, ?fs1)"
      using assms(1-4,9,10) False
      by (auto simp add: finalize_transfer_def Let_def set_mod_etag_header)
    have "\<exists>fs'. splice env (?s1, ?fs1) =
           (Return True, ?s1\<lparr>m_json_cache_valid := True, m_loaded := True, m_temp_file := None\<rparr>, fs') \<and>
         fs' (m_json_fn ?s1) = Some \<lparr>content = butlast d @ '','' @ drop 1 (content f),
                                  mtime = env_now env\<rparr> \<and>
         fs' staged = None"
      by (rule splice_staged) (use assms(11-13) d(1) in simp_all)
    then show ?thesis
      using fin d(2) p False by auto
  next
    case True
    then obtain b where dc: "decompressed (env_libarchive env (content f)) = Some (b, payload)"
      using assms(14) by (auto simp add: spliced_payload_def)
    have ne: "staged \<noteq> ?tmp" "?tmp \<noteq> m_json_fn s"
      using assms(15) True by auto
    let ?s3 = "?s1\<lparr>m_temp_file := Some ?tmp\<rparr>"
    let ?fs3 = "(?fs1(?tmp \<mapsto> \<lparr>content = payload, mtime = env_now env\<rparr>))(staged := None)"
    have dec: "decompress env (?s1, ?fs1) = (Inr b, ?s3, ?fs3)"
      by (rule decompress_returns [where f = f]) (use assms(11-13) ne dc in auto)
    have fin: "finalize_transfer env (s, fs) = splice env (?s3, ?fs3)"
      using assms(1-4,9,10) True
      by (auto simp add: finalize_transfer_def Let_def set_mod_etag_header dec)
    have sp: "\<exists>fs'. splice env (?s3, ?fs3) =
           (Return True, ?s3\<lparr>m_json_cache_valid := True, m_loaded := True, m_temp_file := None\<rparr>, fs') \<and>
         fs' (m_json_fn ?s3) =
           Some \<lparr>content = butlast d @ '','' @
                   drop 1 (content \<lparr>content = payload, mtime = env_now env\<rparr>),
                 mtime = env_now env\<rparr> \<and>
         fs' ?tmp = None"
      by (rule splice_staged) (use assms(11-13) ne d(1) in auto)
    have st: "\<And>fs' out s'. splice env (?s3, ?fs3) = (out, s', fs') \<Longrightarrow> fs' staged = None"
      using assms(13) ne
      by (auto simp add: splice_def Let_def destroy_TemporaryFile_def
          utimensat_apply flush_ofstream_apply split: option.splits sum.splits)
    show ?thesis
      using sp st fin d(2) True by auto
  qed
qed

text \<open>
  C1 (amended). Take a finished transfer with result code 0 and status 200 or 0, header
  values that are well-formed UTF-8, an object whose \<open>m_mod_etag\<close> is \<^verbatim>\<open>null\<close> or an
  object, a final file that opens, a cache directory that can be made
  (\<^verbatim>\<open>create_cache_dir\<close> returns), and a staged file that exists at a path other than the
  json cache's. When the URL ends in \<^verbatim>\<open>.bz2\<close>, let moreover \<open>raw\<close> return (no read of
  the archive data gives a negative result) and let the temporary file of \<open>decompress\<close>
  be neither the staged file nor the json cache. The payload is the staged file, or
  what \<open>raw\<close> wrote from it when the URL ends in \<^verbatim>\<open>.bz2\<close>. Then \<open>finalize_transfer\<close>
  returns true and the json cache file holds the serialized header object, whose
  members stand in the library's sorted order \<^verbatim>\<open>_cache_control\<close>, \<^verbatim>\<open>_etag\<close>, \<^verbatim>\<open>_mod\<close>,
  \<^verbatim>\<open>_url\<close>, with its closing brace replaced by a comma, followed by the payload from its
  second byte on. When the payload starts with an opening brace and parses as an object
  with at least one member, the file parses as the header object with the payload's
  members put into it.
\<close>

theorem finalize_transfer_splices:
  assumes "m_target s = Some t" and "t_result t = 0"
    and "t_http_status t = 200 \<or> t_http_status t = 0"
    and "null_or_object (m_mod_etag s)"
    and "valid_utf8 (m_repodata_url s)" and "valid_utf8 (t_etag t)" and "valid_utf8 (t_mod t)"
    and "valid_utf8 (t_cache_control t)"
    and "env_final_file_opens env" and "env_cache_dir_ok env"
    and "m_temp_file s = Some staged" and "fs staged = Some f" and "staged \<noteq> m_json_fn s"
    and "spliced_payload env (m_repodata_url s) (content f) = Some payload"
    and "ends_with (m_repodata_url s) ''.bz2'' \<longrightarrow>
           staged \<noteq> env_decompress_tmp env \<and> env_decompress_tmp env \<noteq> m_json_fn s"
  shows "\<exists>s' fs'. finalize_transfer env (s, fs) = (Return True, s', fs') \<and>
           fs' (m_json_fn s) =
             Some \<lparr>content = spliced_header (m_repodata_url s) t @ drop 1 payload,
                   mtime = env_now env\<rparr> \<and>
           fs' staged = None \<and>
           m_mod_etag s' = header_object (m_repodata_url s) t \<and>
           m_json_cache_valid s' \<and> m_loaded s' \<and> m_temp_file s' = None \<and>
           (\<forall>pm. take 1 payload = ''{'' \<and> parse payload = Some (Object pm) \<and> pm \<noteq> [] \<longrightarrow>
              parse (spliced_header (m_repodata_url s) t @ drop 1 payload) =
                Some (Object (insert_members (header_members (m_repodata_url s) t) pm)))"
proof -
  have p: "\<forall>pm. take 1 payload = ''{'' \<and> parse payload = Some (Object pm) \<and> pm \<noteq> [] \<longrightarrow>
      parse (spliced_header (m_repodata_url s) t @ drop 1 payload) =
        Some (Object (insert_members (header_members (m_repodata_url s) t) pm))"
  proof (intro allI impI, elim conjE)
    fix pm
    assume a: "take 1 payload = ''{''" "parse payload = Some (Object pm)" "pm \<noteq> []"
    from a(1) have "payload = CHR ''{'' # drop 1 payload"
      by (cases payload) simp_all
    then have "parse (CHR ''{'' # drop 1 payload) = Some (Object pm)"
      using a(2) by simp
    then show "parse (spliced_header (m_repodata_url s) t @ drop 1 payload) =
        Some (Object (insert_members (header_members (m_repodata_url s) t) pm))"
      using a(3) by (rule parse_spliced_file [OF assms(5-8)])
  qed
  have "\<exists>fs'. finalize_transfer env (s, fs) =
           (Return True,
            s\<lparr>m_download_complete := True, m_mod_etag := header_object (m_repodata_url s) t,
              m_json_cache_valid := True, m_loaded := True, m_temp_file := None\<rparr>, fs') \<and>
         fs' (m_json_fn s) =
           Some \<lparr>content = spliced_header (m_repodata_url s) t @ drop 1 payload,
                 mtime = env_now env\<rparr> \<and>
         fs' staged = None \<and>
         (ends_with (m_repodata_url s) ''.bz2'' \<longrightarrow> fs' (env_decompress_tmp env) = None)"
    using assms by (rule finalize_transfer_new_content)
  then obtain fs' where
    "finalize_transfer env (s, fs) =
       (Return True,
        s\<lparr>m_download_complete := True, m_mod_etag := header_object (m_repodata_url s) t,
          m_json_cache_valid := True, m_loaded := True, m_temp_file := None\<rparr>, fs')"
    "fs' (m_json_fn s) =
       Some \<lparr>content = spliced_header (m_repodata_url s) t @ drop 1 payload,
             mtime = env_now env\<rparr>"
    "fs' staged = None"
    by blast
  then show ?thesis
    using p by (intro exI conjI) (assumption | simp)+
qed

lemma parse_example_payload: "parse ''{\"pkg\":1}'' = Some (Object [(''pkg'', NumberInteger 1)])"
  by (simp add: json_eval scan_number_def is_digit_def decimal_def digit_val_def Let_def)

theorem finalize_transfer_splices_witness:
  "\<exists>s' fs'.
     finalize_transfer (env_at 100 (\<lambda>_. OpenFails))
       (subdir_waiting ''U'' (transfer_done ''U'' 0 200), cached_files ''{\"old\":1}'' ''{\"pkg\":1}'') =
       (Return True, s', fs') \<and>
     fs' ''cache/abc.json'' =
       Some \<lparr>content = ''{\"_cache_control\":\"C\",\"_etag\":\"E\",\"_mod\":\"M\",\"_url\":\"U\",\"pkg\":1}'',
             mtime = 100\<rparr> \<and>
     parse ''{\"_cache_control\":\"C\",\"_etag\":\"E\",\"_mod\":\"M\",\"_url\":\"U\",\"pkg\":1}'' =
       Some (Object [(''_cache_control'', String ''C''), (''_etag'', String ''E''),
                     (''_mod'', String ''M''), (''_url'', String ''U''),
                     (''pkg'', NumberInteger 1)]) \<and>
     m_json_cache_valid s' \<and> m_loaded s'"
proof -
  let ?s = "subdir_waiting ''U'' (transfer_done ''U'' 0 200)"
  let ?t = "transfer_done ''U'' 0 200"
  let ?env = "env_at 100 (\<lambda>_. OpenFails)"
  let ?fs = "cached_files ''{\"old\":1}'' ''{\"pkg\":1}''"
  have h: "m_target ?s = Some ?t" "t_result ?t = 0" "t_http_status ?t = 200 \<or> t_http_status ?t = 0"
    "null_or_object (m_mod_etag ?s)" "valid_utf8 (m_repodata_url ?s)" "valid_utf8 (t_etag ?t)"
    "valid_utf8 (t_mod ?t)" "valid_utf8 (t_cache_control ?t)"
    "env_final_file_opens ?env" "env_cache_dir_ok ?env"
    "m_temp_file ?s = Some ''tmp/staged''" "?fs ''tmp/staged'' = Some \<lparr>content = ''{\"pkg\":1}'', mtime = 90\<rparr>"
    "''tmp/staged'' \<noteq> m_json_fn ?s"
    "spliced_payload ?env (m_repodata_url ?s) (content \<lparr>content = ''{\"pkg\":1}'', mtime = 90\<rparr>) =
       Some ''{\"pkg\":1}''"
    "ends_with (m_repodata_url ?s) ''.bz2'' \<longrightarrow>
       ''tmp/staged'' \<noteq> env_decompress_tmp ?env \<and> env_decompress_tmp ?env \<noteq> m_json_fn ?s"
    by (simp_all add: subdir_waiting_def transfer_done_def DownloadTarget_def env_at_def
        cached_files_def null_or_object_def ends_with_def example_valid_utf8 spliced_payload_def)
  have u: "m_repodata_url ?s = ''U''" "m_json_fn ?s = ''cache/abc.json''" "env_now ?env = 100"
    by (simp_all add: subdir_waiting_def env_at_def)
  have hm: "insert_members (header_members ''U'' ?t) [(''pkg'', NumberInteger 1)] =
      [(''_cache_control'', String ''C''), (''_etag'', String ''E''),
       (''_mod'', String ''M''), (''_url'', String ''U''), (''pkg'', NumberInteger 1)]"
    by (simp add: insert_members_def header_members_def transfer_done_def DownloadTarget_def)
  from finalize_transfer_splices
    [where s = ?s and t = ?t and env = ?env and staged = "''tmp/staged''" and fs = ?fs
      and f = "\<lparr>content = ''{\"pkg\":1}'', mtime = 90\<rparr>" and payload = "''{\"pkg\":1}''", OF h]
  obtain s' fs' where r:
    "finalize_transfer ?env (?s, ?fs) = (Return True, s', fs')"
    "fs' (m_json_fn ?s) =
       Some \<lparr>content = spliced_header (m_repodata_url ?s) ?t @ drop 1 ''{\"pkg\":1}'',
             mtime = env_now ?env\<rparr>"
    "m_json_cache_valid s'" "m_loaded s'"
    "\<forall>pm. take 1 ''{\"pkg\":1}'' = ''{'' \<and> parse ''{\"pkg\":1}'' = Some (Object pm) \<and> pm \<noteq> [] \<longrightarrow>
          parse (spliced_header (m_repodata_url ?s) ?t @ drop 1 ''{\"pkg\":1}'') =
            Some (Object (insert_members (header_members (m_repodata_url ?s) ?t) pm))"
    by blast
  from r(5) parse_example_payload
  have "parse (spliced_header (m_repodata_url ?s) ?t @ drop 1 ''{\"pkg\":1}'') =
          Some (Object (insert_members (header_members (m_repodata_url ?s) ?t)
            [(''pkg'', NumberInteger 1)]))"
    by simp
  then have p:
    "parse ''{\"_cache_control\":\"C\",\"_etag\":\"E\",\"_mod\":\"M\",\"_url\":\"U\",\"pkg\":1}'' =
       Some (Object [(''_cache_control'', String ''C''), (''_etag'', String ''E''),
                     (''_mod'', String ''M''), (''_url'', String ''U''),
                     (''pkg'', NumberInteger 1)])"
    using example_spliced_header [of "''U''" 200] by (simp add: u hm)
  show ?thesis
    using r(1-4) p example_spliced_header [of "''U''" 200]
    by (intro exI [of _ s'] exI [of _ fs']) (simp add: u)
qed

text \<open>The claim as stated fails twice. For the headers and the payload of the spec's
  example the file does not start with \<^verbatim>\<open>_url\<close>: its bytes differ from the bytes the
  claim gives. And for the payload \<^verbatim>\<open>{}\<close>, which is a JSON object, the file ends in
  \<^verbatim>\<open>,}\<close> and does not parse.\<close>

theorem finalize_transfer_splices_counterexample:
  "map_option content
     (snd (snd (finalize_transfer (env_at 100 (\<lambda>_. OpenFails))
        (subdir_waiting ''U'' (transfer_done ''U'' 0 200), cached_files ''{\"old\":1}'' ''{\"pkg\":1}'')))
      ''cache/abc.json'') =
     Some ''{\"_cache_control\":\"C\",\"_etag\":\"E\",\"_mod\":\"M\",\"_url\":\"U\",\"pkg\":1}'' \<and>
   ''{\"_cache_control\":\"C\",\"_etag\":\"E\",\"_mod\":\"M\",\"_url\":\"U\",\"pkg\":1}'' \<noteq>
     ''{\"_url\":\"U\",\"_etag\":\"E\",\"_mod\":\"M\",\"_cache_control\":\"C\",\"pkg\":1}'' \<and>
   parse ''{}'' = Some (Object []) \<and>
   map_option content
     (snd (snd (finalize_transfer (env_at 100 (\<lambda>_. OpenFails))
        (subdir_waiting ''U'' (transfer_done ''U'' 0 200), cached_files ''{\"old\":1}'' ''{}'')))
      ''cache/abc.json'') =
     Some ''{\"_cache_control\":\"C\",\"_etag\":\"E\",\"_mod\":\"M\",\"_url\":\"U\",}'' \<and>
   parse ''{\"_cache_control\":\"C\",\"_etag\":\"E\",\"_mod\":\"M\",\"_url\":\"U\",}'' = None"
proof -
  have f: "\<And>staged. map_option content
     (snd (snd (finalize_transfer (env_at 100 (\<lambda>_. OpenFails))
        (subdir_waiting ''U'' (transfer_done ''U'' 0 200), cached_files ''{\"old\":1}'' staged)))
      ''cache/abc.json'') =
     Some (''{\"_cache_control\":\"C\",\"_etag\":\"E\",\"_mod\":\"M\",\"_url\":\"U\",'' @ drop 1 staged)"
    by (simp add: finalize_transfer_def subdir_waiting_def transfer_done_def DownloadTarget_def
        env_at_def cached_files_def ends_with_def set_mod_etag_def json_clear_def json_set_def
        splice_def dump_string_def valid_utf8_def escape_char_def butlast_append
        destroy_TemporaryFile_def flush_ofstream_def utimensat_def)
  have p1: "parse ''{}'' = Some (Object [])"
    by (simp add: json_eval)
  have p2: "parse ''{\"_cache_control\":\"C\",\"_etag\":\"E\",\"_mod\":\"M\",\"_url\":\"U\",}'' = None"
    by (simp add: json_eval)
  show ?thesis
    by (simp add: f p1 p2)
qed

subsection \<open>The regular expression search\<close>

lemma regex_search_skip:
  "\<forall>k < length pre. regex_match_here (drop k (pre @ s)) = None \<Longrightarrow>
   regex_search (pre @ s) = regex_search s"
proof (induction pre)
  case Nil
  then show ?case by simp
next
  case (Cons c pre)
  have here: "regex_match_here ((c # pre) @ s) = None"
    using Cons.prems by force
  have "\<forall>k < length pre. regex_match_here (drop k (pre @ s)) = None"
  proof (intro allI impI)
    fix k assume "k < length pre"
    then have "regex_match_here (drop (Suc k) ((c # pre) @ s)) = None"
      using Cons.prems by (metis Suc_less_eq length_Cons)
    then show "regex_match_here (drop k (pre @ s)) = None" by simp
  qed
  then have "regex_search (pre @ s) = regex_search s" by (rule Cons.IH)
  then show ?case using here by simp
qed

lemma takeWhile_digits:
  "\<forall>c \<in> set ds. is_digit c \<Longrightarrow> post = [] \<or> \<not> is_digit (hd post) \<Longrightarrow>
   takeWhile is_digit (ds @ post) = ds"
  by (cases post) (auto simp add: takeWhile_append2)

lemma regex_match_here_digits:
  assumes "ds \<noteq> []" and "\<forall>c \<in> set ds. is_digit c" and "post = [] \<or> \<not> is_digit (hd post)"
  shows "regex_match_here (''max-age='' @ ds @ post) = Some ds"
  using assms takeWhile_digits [of ds post] by (simp add: regex_match_here_def)

lemma regex_search_first_match:
  assumes "ds \<noteq> []" and "\<forall>c \<in> set ds. is_digit c" and "post = [] \<or> \<not> is_digit (hd post)"
    and "\<forall>k < length pre. regex_match_here (drop k (pre @ ''max-age='' @ ds @ post)) = None"
  shows "regex_search (pre @ ''max-age='' @ ds @ post) = Some ds"
proof -
  have "regex_search (pre @ ''max-age='' @ ds @ post) = regex_search (''max-age='' @ ds @ post)"
    using assms(4) by (rule regex_search_skip)
  also have "\<dots> = Some ds"
    using regex_match_here_digits [OF assms(1-3)] by simp
  finally show ?thesis .
qed

lemma regex_search_no_match:
  "\<forall>k < length h. regex_match_here (drop k h) = None \<Longrightarrow> regex_search h = None"
  using regex_search_skip [of h "[]"] by simp

lemma narrow_int_in_range: "- (2 ^ 31) \<le> x \<Longrightarrow> x \<le> INT_MAX \<Longrightarrow> narrow_int x = x"
  by (simp add: narrow_int_def INT_MAX_def)

lemma regex_search_digits:
  "regex_search h = Some ds \<Longrightarrow> ds \<noteq> [] \<and> (\<forall>c \<in> set ds. is_digit c)"
  by (induction h)
    (auto simp add: regex_match_here_def split: option.splits if_splits dest: set_takeWhileD)

lemma stoi_in_range:
  assumes "ds \<noteq> []" and "\<forall>c \<in> set ds. is_digit c" and "int (decimal ds) \<le> INT_MAX"
  shows "stoi ds = Inr (int (decimal ds))"
proof -
  have tw: "takeWhile is_digit ds = ds" using assms(2) by (simp add: takeWhile_eq_all_conv)
  show ?thesis using assms(1,3) by (simp add: stoi_def tw Let_def)
qed

lemma stoi_out_of_range:
  assumes "ds \<noteq> []" and "\<forall>c \<in> set ds. is_digit c" and "INT_MAX < int (decimal ds)"
  shows "stoi ds = Inl OutOfRange"
proof -
  have tw: "takeWhile is_digit ds = ds" using assms(2) by (simp add: takeWhile_eq_all_conv)
  show ?thesis using assms(1,3) by (simp add: stoi_def tw Let_def)
qed

lemma max_age_seconds_match:
  assumes jv: "json_value j ''_cache_control'' [] = Inr (pre @ ''max-age='' @ ds @ post)"
    and d1: "ds \<noteq> []" and d2: "\<forall>c \<in> set ds. is_digit c"
    and d3: "post = [] \<or> \<not> is_digit (hd post)"
    and nomatch: "\<forall>k < length pre. regex_match_here (drop k (pre @ ''max-age='' @ ds @ post)) = None"
    and d4: "int (decimal ds) \<le> INT_MAX"
  shows "max_age_seconds 1 j = Inr (int (decimal ds))"
proof -
  have found: "regex_search (pre @ ''max-age='' @ ds @ post) = Some ds"
    using d1 d2 d3 nomatch by (rule regex_search_first_match)
  have "get_cache_control_max_age (pre @ ''max-age='' @ ds @ post) = stoi ds"
    unfolding get_cache_control_max_age_def found by simp
  moreover have "stoi ds = Inr (int (decimal ds))"
    using d1 d2 d4 by (rule stoi_in_range)
  moreover have "narrow_int (int (decimal ds)) = int (decimal ds)"
    using d4 by (intro narrow_int_in_range) simp_all
  ultimately show ?thesis
    unfolding max_age_seconds_def jv by simp
qed

text \<open>Where the claimed values are computed: a TTL setting \<open>t\<close> above 1 that fits the
  32-bit local gives \<open>t\<close>, and \<open>t \<le> 0\<close> gives 0. When \<open>t = 1\<close> and the
  \<^verbatim>\<open>_cache_control\<close> header is \<open>h\<close>: 0 when no position of \<open>h\<close> matches
  \<^verbatim>\<open>max-age=<digits>\<close>; and when the first match has the digits \<open>ds\<close> (nothing matches
  before it, and no digit follows \<open>ds\<close>) whose number is at most the largest 32-bit
  \<^verbatim>\<open>int\<close>, that number.\<close>

lemma max_age_seconds_cases:
  "(1 < t \<and> t \<le> INT_MAX \<longrightarrow> max_age_seconds t j = Inr t) \<and>
   (t \<le> 0 \<longrightarrow> max_age_seconds t j = Inr 0) \<and>
   (json_value j ''_cache_control'' [] = Inr h \<and>
    (\<forall>k < length h. regex_match_here (drop k h) = None) \<longrightarrow>
      max_age_seconds 1 j = Inr 0) \<and>
   (json_value j ''_cache_control'' [] = Inr (pre @ ''max-age='' @ ds @ post) \<and>
    ds \<noteq> [] \<and> (\<forall>c \<in> set ds. is_digit c) \<and> (post = [] \<or> \<not> is_digit (hd post)) \<and>
    (\<forall>k < length pre. regex_match_here (drop k (pre @ ''max-age='' @ ds @ post)) = None) \<and>
    int (decimal ds) \<le> INT_MAX \<longrightarrow>
      max_age_seconds 1 j = Inr (int (decimal ds)))"
proof (intro conjI impI)
  assume "1 < t \<and> t \<le> INT_MAX"
  then show "max_age_seconds t j = Inr t"
    by (simp add: max_age_seconds_def narrow_int_in_range)
next
  assume "t \<le> 0"
  then show "max_age_seconds t j = Inr 0" by (simp add: max_age_seconds_def)
next
  assume "json_value j ''_cache_control'' [] = Inr h \<and>
    (\<forall>k < length h. regex_match_here (drop k h) = None)"
  then show "max_age_seconds 1 j = Inr 0"
    using regex_search_no_match [of h]
    by (simp add: max_age_seconds_def get_cache_control_max_age_def narrow_int_def)
next
  assume "json_value j ''_cache_control'' [] = Inr (pre @ ''max-age='' @ ds @ post) \<and>
    ds \<noteq> [] \<and> (\<forall>c \<in> set ds. is_digit c) \<and> (post = [] \<or> \<not> is_digit (hd post)) \<and>
    (\<forall>k < length pre. regex_match_here (drop k (pre @ ''max-age='' @ ds @ post)) = None) \<and>
    int (decimal ds) \<le> INT_MAX"
  then show "max_age_seconds 1 j = Inr (int (decimal ds))"
    by (elim conjE) (rule max_age_seconds_match; assumption)
qed

lemma regex_match_here_short: "length s < 9 \<Longrightarrow> regex_match_here s = None"
  by (auto simp add: regex_match_here_def)

lemma max_age_seconds_examples:
  "max_age_seconds 5 (Object [(''_cache_control'', String ''no-cache'')]) = Inr 5 \<and>
   max_age_seconds 1 (Object [(''_cache_control'', String ''public, max-age=1200'')]) = Inr 1200 \<and>
   max_age_seconds 1 (Object [(''_cache_control'', String ''no-cache'')]) = Inr 0 \<and>
   max_age_seconds 0 (Object [(''_cache_control'', String ''public, max-age=1200'')]) = Inr 0"
proof -
  have none: "\<forall>k < length ''no-cache''. regex_match_here (drop k ''no-cache'') = None"
    by (simp add: regex_match_here_short)
  have pre: "\<forall>k < length ''public, ''.
      regex_match_here (drop k (''public, '' @ ''max-age='' @ ''1200'' @ [])) = None"
    by (simp add: regex_match_here_def All_less_Suc)
  have dec: "int (decimal ''1200'') = 1200 \<and> (\<forall>c \<in> set ''1200''. is_digit c)"
    by (simp add: decimal_def digit_val_def is_digit_def in_range_def)
  have a: "max_age_seconds 5 (Object [(''_cache_control'', String ''no-cache'')]) = Inr 5"
    using max_age_seconds_cases [of 5 "Object [(''_cache_control'', String ''no-cache'')]"]
    by (simp add: INT_MAX_def)
  have b: "max_age_seconds 1 (Object [(''_cache_control'', String ''public, max-age=1200'')]) = Inr 1200"
    using max_age_seconds_cases [of 1 "Object [(''_cache_control'', String ''public, max-age=1200'')]"
        _ "''public, ''" "''1200''" "[]"] pre dec
    by (simp add: json_value_def INT_MAX_def)
  have c: "max_age_seconds 1 (Object [(''_cache_control'', String ''no-cache'')]) = Inr 0"
    using max_age_seconds_cases [of 1 "Object [(''_cache_control'', String ''no-cache'')]"
        "''no-cache''"] none
    by (simp add: json_value_def)
  have d: "max_age_seconds 0 (Object [(''_cache_control'', String ''public, max-age=1200'')]) = Inr 0"
    using max_age_seconds_cases [of 0 "Object [(''_cache_control'', String ''public, max-age=1200'')]"]
    by simp
  show ?thesis using a b c d by simp
qed

text \<open>Where they are not: whenever the search captures digits whose number exceeds the
  largest 32-bit \<^verbatim>\<open>int\<close>, \<^verbatim>\<open>std::stoi\<close> raises and nothing catches it; and a TTL setting
  above that bound wraps around in the local.\<close>

lemma max_age_seconds_stoi_raises:
  assumes "json_value j ''_cache_control'' [] = Inr h" and "regex_search h = Some ds"
    and "INT_MAX < int (decimal ds)"
  shows "max_age_seconds 1 j = Inl OutOfRange"
proof -
  have "stoi ds = Inl OutOfRange"
    using regex_search_digits [OF assms(2)] assms(3) by (intro stoi_out_of_range) simp_all
  then show ?thesis
    by (simp add: max_age_seconds_def assms(1,2) get_cache_control_max_age_def)
qed

lemma max_age_seconds_wraps:
  assumes "INT_MAX < t" and "t < 2 ^ 32"
  shows "max_age_seconds t j = Inr (t - 2 ^ 32)"
proof -
  have "(t + 2 ^ 31) mod 2 ^ 32 = t + 2 ^ 31 - 2 ^ 32"
    using assms by (simp add: INT_MAX_def mod_pos_geq)
  then show ?thesis
    using assms(1) by (simp add: max_age_seconds_def narrow_int_def INT_MAX_def)
qed

text \<open>
  C3 (a defect of the code). With a TTL setting of 1 and the
  \<^verbatim>\<open>_cache_control\<close> header \<^verbatim>\<open>max-age=2147483648\<close> the search matches and captures the
  digits, \<^verbatim>\<open>std::stoi\<close> raises \<^verbatim>\<open>std::out_of_range\<close> and no handler catches it: the
  computation ends with the exception, neither with the captured integer nor with 0,
  while the sibling path without a match returns 0. And a TTL setting above the largest
  32-bit \<^verbatim>\<open>int\<close> does not come out as it is: 2147483653 gives -2147483643.
\<close>

theorem max_age_seconds_out_of_range:
  "regex_search ''max-age=2147483648'' = Some ''2147483648'' \<and>
   max_age_seconds 1 (Object [(''_cache_control'', String ''max-age=2147483648'')]) =
     Inl OutOfRange \<and>
   regex_search ''no-cache'' = None \<and>
   max_age_seconds 1 (Object [(''_cache_control'', String ''no-cache'')]) = Inr 0 \<and>
   max_age_seconds 2147483653 (Object [(''_cache_control'', String ''no-cache'')]) =
     Inr (- 2147483643)"
  by (simp add: max_age_seconds_def json_value_def get_cache_control_max_age_def stoi_def
      regex_match_here_def is_digit_def in_range_def decimal_def digit_val_def INT_MAX_def
      narrow_int_def)

subsection \<open>\<open>load\<close>\<close>

lemma read_fresh_doc:
  "read_mod_and_etag (cached_files fresh_doc staged) ''cache/abc.json'' =
     Object [(''_cache_control'', String ''public, max-age=1200''), (''_etag'', String ''E''),
             (''_mod'', String ''M''), (''_url'', String ''U'')]"
  by (simp add: json_eval cached_files_def fresh_doc_def)

lemma read_huge_doc:
  "read_mod_and_etag (cached_files huge_doc staged) ''cache/abc.json'' =
     Object [(''_cache_control'', String ''max-age=2147483648''), (''_etag'', String ''E''),
             (''_mod'', String ''M''), (''_url'', String ''U'')]"
  by (simp add: json_eval cached_files_def huge_doc_def)

lemma max_age_fresh_doc:
  "max_age_seconds 1 (Object [(''_cache_control'', String ''public, max-age=1200''),
     (''_etag'', String ''E''), (''_mod'', String ''M''), (''_url'', String ''U'')]) = Inr 1200"
  by (simp add: max_age_seconds_def json_value_def get_cache_control_max_age_def
      regex_match_here_def stoi_def is_digit_def in_range_def decimal_def digit_val_def INT_MAX_def
      narrow_int_def)

text \<open>Where \<open>load\<close> accepts the cache: the json cache file exists (its age is not the
  sentinel), the URL does not start with \<^verbatim>\<open>file://\<close>, the headers read from the file
  are not empty and the computation of the max age from them ends with a number \<open>m\<close>
  rather than an exception. Then, if \<open>m\<close> is greater than the age in seconds or the
  offline setting holds, \<open>load\<close> returns true with \<open>m_loaded\<close> and
  \<open>m_json_cache_valid\<close> set; the file system, the transfer target and the staged file
  are what they were.\<close>

lemma load_accepts_fresh_cache:
  assumes "check_cache fs (m_json_fn s) now \<noteq> duration_max"
    and "\<not> forbid_cache s"
    and "json_size (read_mod_and_etag fs (m_json_fn s)) \<noteq> 0"
    and "max_age_seconds (local_repodata_ttl ctx) (read_mod_and_etag fs (m_json_fn s)) = Inr m"
    and "m > seconds_count (check_cache fs (m_json_fn s) now) \<or> offline ctx"
  shows "\<exists>s'. load ctx now tmp (s, fs) = (Return True, s', fs) \<and>
           m_loaded s' \<and> m_json_cache_valid s' \<and>
           m_target s' = m_target s \<and> m_temp_file s' = m_temp_file s"
  using assms by (auto simp add: load_def Let_def)

lemma load_accepts_fresh_doc:
  "\<exists>s'. load \<lparr>local_repodata_ttl = 1, offline = False\<rparr> 5000000010 ''tmp/new''
          (subdir_new ''https://repo/noarch/repodata.json'', cached_files fresh_doc []) =
          (Return True, s', cached_files fresh_doc []) \<and>
        m_loaded s' \<and> m_json_cache_valid s' \<and> m_target s' = None \<and> m_temp_file s' = None"
  using load_accepts_fresh_cache
    [of "cached_files fresh_doc []" "subdir_new ''https://repo/noarch/repodata.json''" 5000000010
      "\<lparr>local_repodata_ttl = 1, offline = False\<rparr>" 1200 "''tmp/new''"]
    read_fresh_doc [of "[]"] max_age_fresh_doc
  by (simp add: subdir_new_def check_cache_def cached_files_def duration_max_def forbid_cache_def
      starts_with_def json_size_def seconds_count_def ticks_per_second_def)

text \<open>
  C2 (a defect of the code). \<open>load\<close> computes the max age before it looks
  at the offline setting. When the json cache file exists, the URL does not start with
  \<^verbatim>\<open>file://\<close>, the headers read from the file are not empty, the TTL setting is 1 and
  the search captures from the \<^verbatim>\<open>_cache_control\<close> header digits whose number exceeds
  the largest 32-bit \<^verbatim>\<open>int\<close>, \<open>load\<close> ends with the \<^verbatim>\<open>std::out_of_range\<close> of
  \<^verbatim>\<open>std::stoi\<close>, which nothing catches, whether the offline setting holds or not; it
  neither accepts the cache nor returns. The headers read stay in \<open>m_mod_etag\<close>.
\<close>

theorem load_max_age_out_of_range:
  assumes "check_cache fs (m_json_fn s) now \<noteq> duration_max"
    and "\<not> forbid_cache s"
    and "json_size (read_mod_and_etag fs (m_json_fn s)) \<noteq> 0"
    and "local_repodata_ttl ctx = 1"
    and "json_value (read_mod_and_etag fs (m_json_fn s)) ''_cache_control'' [] = Inr h"
    and "regex_search h = Some ds" and "INT_MAX < int (decimal ds)"
  shows "load ctx now tmp (s, fs) =
           (Throw OutOfRange, s\<lparr>m_mod_etag := read_mod_and_etag fs (m_json_fn s)\<rparr>, fs)"
proof -
  have "max_age_seconds 1 (read_mod_and_etag fs (m_json_fn s)) = Inl OutOfRange"
    using assms(5-7) by (rule max_age_seconds_stoi_raises)
  then show ?thesis
    using assms(1-4) by (simp add: load_def Let_def)
qed

theorem load_max_age_out_of_range_witness:
  "check_cache (cached_files huge_doc []) (m_json_fn (subdir_new ''https://repo/noarch/repodata.json''))
     5000000010 \<noteq> duration_max \<and>
   \<not> forbid_cache (subdir_new ''https://repo/noarch/repodata.json'') \<and>
   json_size (read_mod_and_etag (cached_files huge_doc [])
     (m_json_fn (subdir_new ''https://repo/noarch/repodata.json''))) \<noteq> 0 \<and>
   offline \<lparr>local_repodata_ttl = 1, offline = True\<rparr> \<and>
   fst (load \<lparr>local_repodata_ttl = 1, offline = True\<rparr> 5000000010 ''tmp/new''
          (subdir_new ''https://repo/noarch/repodata.json'', cached_files huge_doc [])) =
     Throw OutOfRange"
proof -
  let ?s = "subdir_new ''https://repo/noarch/repodata.json''"
  let ?fs = "cached_files huge_doc []"
  let ?ctx = "\<lparr>local_repodata_ttl = 1, offline = True\<rparr>"
  have j: "m_json_fn ?s = ''cache/abc.json''"
    by (simp add: subdir_new_def)
  have h1: "check_cache ?fs (m_json_fn ?s) 5000000010 \<noteq> duration_max"
    by (simp add: j check_cache_def cached_files_def duration_max_def)
  have h2: "\<not> forbid_cache ?s"
    by (simp add: subdir_new_def forbid_cache_def starts_with_def)
  have h3: "json_size (read_mod_and_etag ?fs (m_json_fn ?s)) \<noteq> 0"
    by (simp add: j read_huge_doc json_size_def)
  have h4: "local_repodata_ttl ?ctx = 1"
    by simp
  have h5: "json_value (read_mod_and_etag ?fs (m_json_fn ?s)) ''_cache_control'' [] =
      Inr ''max-age=2147483648''"
    by (simp add: j read_huge_doc json_value_def)
  have h6: "regex_search ''max-age=2147483648'' = Some ''2147483648''"
    by (simp add: regex_match_here_def is_digit_def in_range_def)
  have h7: "INT_MAX < int (decimal ''2147483648'')"
    by (simp add: decimal_def digit_val_def INT_MAX_def)
  have "load ?ctx 5000000010 ''tmp/new'' (?s, ?fs) =
      (Throw OutOfRange, ?s\<lparr>m_mod_etag := read_mod_and_etag ?fs (m_json_fn ?s)\<rparr>, ?fs)"
    using h1 h2 h3 h4 h5 h6 h7 by (rule load_max_age_out_of_range)
  then show ?thesis
    using h1 h2 h3 by simp
qed

text \<open>
  C5. If the derived-cache flag \<open>m_solv_cache_valid\<close> holds after \<open>load\<close> or after
  \<open>finalize_transfer\<close>, then it held before the call, or the call set it: then the
  age of the derived cache file at the clock reading of the call is not the sentinel
  for a missing file and is at most the age of the json cache file, and in
  \<open>finalize_transfer\<close> the HTTP status is 304.
\<close>

theorem solv_cache_valid_not_older:
  "(m_solv_cache_valid (fst (snd (load ctx now tmp (s, fs)))) \<longrightarrow>
      m_solv_cache_valid s \<or>
      (check_cache fs (m_solv_fn s) now \<noteq> duration_max \<and>
       check_cache fs (m_solv_fn s) now \<le> check_cache fs (m_json_fn s) now)) \<and>
   (m_solv_cache_valid (fst (snd (finalize_transfer env (s, fs)))) \<longrightarrow>
      m_solv_cache_valid s \<or>
      ((\<exists>t. m_target s = Some t \<and> t_http_status t = 304) \<and>
       check_cache fs (m_solv_fn s) (env_now env) \<noteq> duration_max \<and>
       check_cache fs (m_solv_fn s) (env_now env) \<le> check_cache fs (m_json_fn s) (env_now env)))"
proof (intro conjI impI)
  assume "m_solv_cache_valid (fst (snd (load ctx now tmp (s, fs))))"
  then show "m_solv_cache_valid s \<or>
      (check_cache fs (m_solv_fn s) now \<noteq> duration_max \<and>
       check_cache fs (m_solv_fn s) now \<le> check_cache fs (m_json_fn s) now)"
    by (auto simp add: load_def Let_def create_target_def split: if_splits sum.splits)
next
  assume "m_solv_cache_valid (fst (snd (finalize_transfer env (s, fs))))"
  then show "m_solv_cache_valid s \<or>
      ((\<exists>t. m_target s = Some t \<and> t_http_status t = 304) \<and>
       check_cache fs (m_solv_fn s) (env_now env) \<noteq> duration_max \<and>
       check_cache fs (m_solv_fn s) (env_now env) \<le> check_cache fs (m_json_fn s) (env_now env))"
    by (auto simp add: finalize_transfer_def Let_def splice_def decompress_def
        split: if_splits sum.splits option.splits prod.splits)
qed

theorem solv_cache_valid_not_older_witness:
  "\<not> m_solv_cache_valid (subdir_new ''https://repo/noarch/repodata.json'') \<and>
   m_solv_cache_valid (fst (snd (load \<lparr>local_repodata_ttl = 1, offline = False\<rparr> 5000000010 ''tmp/new''
          (subdir_new ''https://repo/noarch/repodata.json'', cached_files fresh_doc [])))) \<and>
   check_cache (cached_files fresh_doc []) ''cache/abc.solv'' 5000000010 = 4999999990 \<and>
   check_cache (cached_files fresh_doc []) ''cache/abc.json'' 5000000010 = 5000000000 \<and>
   \<not> m_solv_cache_valid (subdir_waiting ''U'' (transfer_done ''U'' 0 304)) \<and>
   m_solv_cache_valid (fst (snd (finalize_transfer (env_at 100 (\<lambda>_. OpenFails))
       (subdir_waiting ''U'' (transfer_done ''U'' 0 304), cached_files ''{\"old\":1}'' [])))) \<and>
   check_cache (cached_files ''{\"old\":1}'' []) ''cache/abc.solv'' 100 = 80 \<and>
   check_cache (cached_files ''{\"old\":1}'' []) ''cache/abc.json'' 100 = 90"
proof -
  let ?ctx = "\<lparr>local_repodata_ttl = 1, offline = False\<rparr>"
  let ?s = "subdir_new ''https://repo/noarch/repodata.json''"
  let ?fs = "cached_files fresh_doc []"
  let ?L = "load ?ctx 5000000010 ''tmp/new'' (?s, ?fs)"
  let ?env = "env_at 100 (\<lambda>_. OpenFails)"
  let ?s2 = "subdir_waiting ''U'' (transfer_done ''U'' 0 304)"
  let ?fs2 = "cached_files ''{\"old\":1}'' []"
  let ?F = "finalize_transfer ?env (?s2, ?fs2)"
  have ages: "check_cache ?fs ''cache/abc.solv'' 5000000010 = 4999999990"
    "check_cache ?fs ''cache/abc.json'' 5000000010 = 5000000000"
    "check_cache ?fs2 ''cache/abc.solv'' 100 = 80"
    "check_cache ?fs2 ''cache/abc.json'' 100 = 90"
    by (simp_all add: check_cache_def cached_files_def)
  have l: "m_solv_cache_valid (fst (snd ?L))"
    using read_fresh_doc [of "[]"] max_age_fresh_doc
    by (simp add: load_def subdir_new_def ages duration_max_def forbid_cache_def starts_with_def
        json_size_def seconds_count_def ticks_per_second_def)
  have f: "m_solv_cache_valid (fst (snd ?F))"
    by (simp add: finalize_transfer_def subdir_waiting_def transfer_done_def DownloadTarget_def
        env_at_def ages duration_max_def)
  have "\<not> m_solv_cache_valid ?s" "\<not> m_solv_cache_valid ?s2"
    by (simp_all add: subdir_new_def subdir_waiting_def)
  then show ?thesis
    using solv_cache_valid_not_older [of ?ctx 5000000010 "''tmp/new''" ?s ?fs ?env]
      solv_cache_valid_not_older [of ?ctx 5000000010 "''tmp/new''" ?s2 ?fs2 ?env]
      l f ages
    by simp
qed

subsection \<open>\<open>read_mod_and_etag\<close>\<close>

text \<open>What holds of the scanner: a file with fewer than 16 double quotes, or no file,
  gives the empty result; so does a text that does not parse; and the headers of the
  spec's synthetic document are found whatever follows them.\<close>

lemma extract_subjson_few_quotes:
  "i + length (filter (\<lambda>c. c = CHR 0x22) s) < 16 \<Longrightarrow> extract_subjson s result escaped i = []"
  by (induction s arbitrary: result escaped i) (auto simp add: Let_def)

lemma parse_empty: "parse [] = None"
  by (simp add: parse_def parse_value.simps)

lemma read_mod_and_etag_end_of_stream:
  assumes "case fs json_fn of None \<Rightarrow> True
           | Some f \<Rightarrow> length (filter (\<lambda>c. c = CHR 0x22) (content f)) < 16"
  shows "read_mod_and_etag fs json_fn = Null"
  using assms
  by (auto simp add: read_mod_and_etag_def parse_empty extract_subjson_few_quotes
      split: option.splits)

lemma read_mod_and_etag_parse_error:
  "fs json_fn = Some f \<Longrightarrow> parse (extract_subjson (content f) [] False 0) = None \<Longrightarrow>
   read_mod_and_etag fs json_fn = Null"
  by (simp add: read_mod_and_etag_def)

lemma read_mod_and_etag_synthetic:
  "read_mod_and_etag
     [p \<mapsto> \<lparr>content = ''{\"_url\":\"u\",\"_etag\":\"e\",\"_mod\":\"m\",\"_cache_control\":\"c\"'' @ payload,
             mtime = t\<rparr>] p =
   Object [(''_cache_control'', String ''c''), (''_etag'', String ''e''),
           (''_mod'', String ''m''), (''_url'', String ''u'')]"
  by (simp add: json_eval)

text \<open>
  C4 (a defect of the code). \<open>extract_subjson\<close> sets \<open>escaped\<close> at a backslash and
  clears it only at the next double quote, so the quote that closes a string is not
  counted when an escape other than \<^verbatim>\<open>\"\<close> stands before it. For the URL
  \<^verbatim>\<open>http://h/a\b\<close> the cache file that \<open>finalize_transfer\<close> writes is well-formed
  JSON with the four headers first; counting the unescaped quotes as the spec says
  gives the four headers; the code stops at the opening quote of the fifth key, its
  text does not parse and \<open>read_mod_and_etag\<close> returns \<^verbatim>\<open>null\<close>.
\<close>

theorem read_mod_and_etag_backslash:
  "parse backslash_doc =
     Some (Object [(''_cache_control'', String ''C''), (''_etag'', String ''E''),
                   (''_mod'', String ''M''), (''_url'', String backslash_url),
                   (''pkg'', NumberInteger 1)]) \<and>
   extract_subjson backslash_doc [] False 0 =
     ''{\"_cache_control\":\"C\",\"_etag\":\"E\",\"_mod\":\"M\",\"_url\":\"http://h/a'' @
     [CHR 0x5C, CHR 0x5C] @ ''b\",\"}'' \<and>
   read_mod_and_etag (cached_files backslash_doc []) ''cache/abc.json'' = Null \<and>
   parse (spec_extract_subjson backslash_doc [] False 0) =
     Some (Object [(''_cache_control'', String ''C''), (''_etag'', String ''E''),
                   (''_mod'', String ''M''), (''_url'', String backslash_url)])"
proof -
  have b: "parse backslash_doc =
     Some (Object [(''_cache_control'', String ''C''), (''_etag'', String ''E''),
                   (''_mod'', String ''M''), (''_url'', String backslash_url),
                   (''pkg'', NumberInteger 1)])"
    by (simp add: json_eval backslash_doc_def backslash_url_def simple_escape_def
        scan_number_def is_digit_def decimal_def digit_val_def Let_def)
  have c: "extract_subjson backslash_doc [] False 0 =
     ''{\"_cache_control\":\"C\",\"_etag\":\"E\",\"_mod\":\"M\",\"_url\":\"http://h/a'' @
     [CHR 0x5C, CHR 0x5C] @ ''b\",\"}''"
    by (simp add: backslash_doc_def)
  have d: "read_mod_and_etag (cached_files backslash_doc []) ''cache/abc.json'' = Null"
    by (simp add: read_mod_and_etag_def cached_files_def c)
      (simp add: json_eval simple_escape_def)
  have e: "parse (spec_extract_subjson backslash_doc [] False 0) =
     Some (Object [(''_cache_control'', String ''C''), (''_etag'', String ''E''),
                   (''_mod'', String ''M''), (''_url'', String backslash_url)])"
    by (simp add: backslash_doc_def backslash_url_def)
      (simp add: json_eval simple_escape_def)
  show ?thesis
    by (simp only: b c d e simp_thms)
qed

text \<open>The file of that theorem is the one \<open>finalize_transfer\<close> writes for the URL
  with the backslash: the code does not read back its own cache file.\<close>

lemma finalize_transfer_writes_backslash_doc:
  "snd (snd (finalize_transfer (env_at 100 (\<lambda>_. OpenFails))
      (subdir_waiting backslash_url (transfer_done backslash_url 0 200),
       cached_files ''{\"old\":1}'' ''{\"pkg\":1}''))) ''cache/abc.json'' =
     Some \<lparr>content = backslash_doc, mtime = 100\<rparr>"
  by (simp add: finalize_transfer_def subdir_waiting_def transfer_done_def DownloadTarget_def
      env_at_def cached_files_def ends_with_def set_mod_etag_def json_clear_def json_set_def
      splice_def dump_string_def valid_utf8_def escape_char_def butlast_append
      destroy_TemporaryFile_def flush_ofstream_def utimensat_def backslash_url_def
      backslash_doc_def)

text \<open>
  C6. A transfer that ends with result code 0 and HTTP status 304 leaves the bytes of
  the existing json cache file as they are and sets its modification time to the
  current time; the staged file is removed and no longer held, the json cache and the
  object are marked valid and loaded, and the call returns true. The staged file is a
  temporary file of its own, not the json cache file.
\<close>

theorem finalize_transfer_not_modified:
  assumes "m_target s = Some t" and "t_result t = 0" and "t_http_status t = 304"
    and "fs (m_json_fn s) = Some f" and "m_temp_file s \<noteq> Some (m_json_fn s)"
  shows "\<exists>s' fs'. finalize_transfer env (s, fs) = (Return True, s', fs') \<and>
           fs' (m_json_fn s) = Some (f\<lparr>mtime := env_now env\<rparr>) \<and>
           (\<forall>p. m_temp_file s = Some p \<longrightarrow> fs' p = None) \<and>
           m_temp_file s' = None \<and> m_json_cache_valid s' \<and> m_loaded s'"
  using assms
  by (auto simp add: finalize_transfer_def Let_def utimensat_apply destroy_TemporaryFile_def
      split: option.splits)

theorem finalize_transfer_not_modified_witness:
  "\<exists>s' fs'.
     finalize_transfer (env_at 100 (\<lambda>_. OpenFails))
       (subdir_waiting ''U'' (transfer_done ''U'' 0 304), cached_files ''{\"old\":1}'' []) =
       (Return True, s', fs') \<and>
     fs' ''cache/abc.json'' = Some \<lparr>content = ''{\"old\":1}'', mtime = 100\<rparr> \<and>
     fs' ''tmp/staged'' = None \<and>
     m_temp_file s' = None \<and> m_json_cache_valid s' \<and> m_loaded s'"
  using finalize_transfer_not_modified
    [of "subdir_waiting ''U'' (transfer_done ''U'' 0 304)" "transfer_done ''U'' 0 304"
      "cached_files ''{\"old\":1}'' []" "\<lparr>content = ''{\"old\":1}'', mtime = 10\<rparr>"
      "env_at 100 (\<lambda>_. OpenFails)"]
  by (simp add: subdir_waiting_def transfer_done_def cached_files_def env_at_def)

text \<open>
  C7. When the transfer's result code is not zero or its HTTP status is 400 or more,
  \<open>finalize_transfer\<close> returns false and clears \<open>m_loaded\<close>; every other member
  and the whole file system, json cache and derived cache included, stay as they were.
\<close>

theorem finalize_transfer_failed:
  assumes "m_target s = Some t" and "t_result t \<noteq> 0 \<or> t_http_status t \<ge> 400"
  shows "finalize_transfer env (s, fs) = (Return False, s\<lparr>m_loaded := False\<rparr>, fs)"
  using assms by (simp add: finalize_transfer_def)

theorem finalize_transfer_failed_witness:
  "400 \<le> t_http_status (transfer_done ''U'' 0 404) \<and>
   finalize_transfer (env_at 100 (\<lambda>_. OpenFails))
     (subdir_waiting ''U'' (transfer_done ''U'' 0 404), cached_files ''{\"old\":1}'' []) =
     (Return False, (subdir_waiting ''U'' (transfer_done ''U'' 0 404))\<lparr>m_loaded := False\<rparr>,
      cached_files ''{\"old\":1}'' [])"
  using finalize_transfer_failed
    [of "subdir_waiting ''U'' (transfer_done ''U'' 0 404)" "transfer_done ''U'' 0 404"
      "env_at 100 (\<lambda>_. OpenFails)" "cached_files ''{\"old\":1}'' []"]
  by (simp add: subdir_waiting_def transfer_done_def)

subsection \<open>A damaged compressed download\<close>

lemma raw_fails:
  assumes "fs inp = Some f" and "la (content f) = OpenFails \<or> la (content f) = HeaderFails"
    and "fs out = Some \<lparr>content = [], mtime = now\<rparr>"
  shows "raw la now inp out fs = (Inr False, fs)"
  using assms by (auto simp add: raw_def fun_upd_idem)

lemma decompress_fails:
  assumes "m_temp_file s = Some staged" and "staged \<noteq> env_decompress_tmp env"
    and "fs staged = Some f"
    and "env_libarchive env (content f) = OpenFails \<or> env_libarchive env (content f) = HeaderFails"
  shows "decompress env (s, fs) =
      (Inr False, s\<lparr>m_temp_file := Some (env_decompress_tmp env)\<rparr>,
       destroy_TemporaryFile (Some staged)
         (TemporaryFile (env_decompress_tmp env) (env_now env) fs))"
proof -
  let ?fs1 = "TemporaryFile (env_decompress_tmp env) (env_now env) fs"
  have "raw (env_libarchive env) (env_now env) staged (env_decompress_tmp env) ?fs1 = (Inr False, ?fs1)"
    by (rule raw_fails [where f = f]) (use assms in \<open>auto simp add: TemporaryFile_def\<close>)
  then show ?thesis
    using assms(1) by (simp add: decompress_def Let_def)
qed

lemma finalize_transfer_bz2_decompress_fails:
  assumes "m_target s = Some t" and "t_result t = 0"
    and "t_http_status t = 200 \<or> t_http_status t = 0"
    and "null_or_object (m_mod_etag s)"
    and "valid_utf8 (m_repodata_url s)" and "valid_utf8 (t_etag t)" and "valid_utf8 (t_mod t)"
    and "valid_utf8 (t_cache_control t)"
    and "env_final_file_opens env" and "env_cache_dir_ok env"
    and "ends_with (m_repodata_url s) ''.bz2''"
    and "m_temp_file s = Some staged" and "fs staged = Some f" and "staged \<noteq> m_json_fn s"
    and "staged \<noteq> env_decompress_tmp env" and "env_decompress_tmp env \<noteq> m_json_fn s"
    and "env_libarchive env (content f) = OpenFails \<or> env_libarchive env (content f) = HeaderFails"
  shows "\<exists>fs'. finalize_transfer env (s, fs) =
           (Return True,
            s\<lparr>m_download_complete := True, m_mod_etag := header_object (m_repodata_url s) t,
              m_temp_file := Some (env_decompress_tmp env),
              m_json_cache_valid := True, m_loaded := True, m_temp_file := None\<rparr>, fs') \<and>
         fs' (m_json_fn s) =
           Some \<lparr>content = spliced_header (m_repodata_url s) t, mtime = env_now env\<rparr> \<and>
         fs' (env_decompress_tmp env) = None \<and> fs' staged = None"
proof -
  let ?tmp = "env_decompress_tmp env"
  let ?s1 = "s\<lparr>m_download_complete := True, m_mod_etag := header_object (m_repodata_url s) t\<rparr>"
  let ?fs1 = "fs(m_json_fn s \<mapsto> \<lparr>content = [], mtime = env_now env\<rparr>)"
  let ?s3 = "?s1\<lparr>m_temp_file := Some ?tmp\<rparr>"
  let ?fs3 = "destroy_TemporaryFile (Some staged) (TemporaryFile ?tmp (env_now env) ?fs1)"
  obtain d where d: "dump (header_object (m_repodata_url s) t) = Inr d"
    "butlast d @ '','' = spliced_header (m_repodata_url s) t"
    using dump_header_object [OF assms(5-8)] by blast
  have dec: "decompress env (?s1, ?fs1) = (Inr False, ?s3, ?fs3)"
    by (rule decompress_fails [where f = f]) (use assms in auto)
  have fin: "finalize_transfer env (s, fs) = splice env (?s3, ?fs3)"
    using assms(1-4,9-11) by (auto simp add: finalize_transfer_def Let_def set_mod_etag_header dec)
  have sp: "\<exists>fs'. splice env (?s3, ?fs3) =
           (Return True, ?s3\<lparr>m_json_cache_valid := True, m_loaded := True, m_temp_file := None\<rparr>, fs') \<and>
         fs' (m_json_fn ?s3) =
           Some \<lparr>content = butlast d @ '','' @ drop 1 (content \<lparr>content = [], mtime = env_now env\<rparr>),
                 mtime = env_now env\<rparr> \<and>
         fs' ?tmp = None"
    by (rule splice_staged)
      (use assms d(1) in \<open>auto simp add: destroy_TemporaryFile_def TemporaryFile_def\<close>)
  have st: "\<And>fs' out s'. splice env (?s3, ?fs3) = (out, s', fs') \<Longrightarrow> fs' staged = None"
    using assms(14,15)
    by (auto simp add: splice_def Let_def destroy_TemporaryFile_def TemporaryFile_def
        utimensat_apply flush_ofstream_apply split: option.splits sum.splits)
  show ?thesis
    using sp st fin d(2) by auto
qed

text \<open>
  C10. \<open>decompress\<close> puts the new temporary file in place of the staged one whenever
  \<open>raw\<close> returns, also when it returns false: when the archive cannot be opened or its
  header cannot be read, \<open>decompress\<close> returns false, \<open>m_temp_file\<close> is the new
  file, that file is empty, and the file that was staged is removed. The splice that
  follows in \<open>finalize_transfer\<close> then writes the header prefix alone: no byte of the
  downloaded file reaches the json cache.
\<close>

theorem decompress_swaps:
  "(m_temp_file s = Some staged \<and> staged \<noteq> env_decompress_tmp env \<and> fs staged = Some f \<and>
    (env_libarchive env (content f) = OpenFails \<or> env_libarchive env (content f) = HeaderFails) \<longrightarrow>
      fst (decompress env (s, fs)) = Inr False \<and>
      m_temp_file (fst (snd (decompress env (s, fs)))) = Some (env_decompress_tmp env) \<and>
      snd (snd (decompress env (s, fs))) (env_decompress_tmp env) =
        Some \<lparr>content = [], mtime = env_now env\<rparr> \<and>
      snd (snd (decompress env (s, fs))) staged = None) \<and>
   (m_temp_file s = Some staged \<and> (\<exists>r. fst (decompress env (s, fs)) = Inr r) \<longrightarrow>
      m_temp_file (fst (snd (decompress env (s, fs)))) = Some (env_decompress_tmp env)) \<and>
   (m_target s = Some t \<and> t_result t = 0 \<and> (t_http_status t = 200 \<or> t_http_status t = 0) \<and>
    null_or_object (m_mod_etag s) \<and>
    valid_utf8 (m_repodata_url s) \<and> valid_utf8 (t_etag t) \<and> valid_utf8 (t_mod t) \<and>
    valid_utf8 (t_cache_control t) \<and>
    env_final_file_opens env \<and> env_cache_dir_ok env \<and>
    ends_with (m_repodata_url s) ''.bz2'' \<and>
    m_temp_file s = Some staged \<and> fs staged = Some f \<and> staged \<noteq> m_json_fn s \<and>
    staged \<noteq> env_decompress_tmp env \<and> env_decompress_tmp env \<noteq> m_json_fn s \<and>
    (env_libarchive env (content f) = OpenFails \<or> env_libarchive env (content f) = HeaderFails) \<longrightarrow>
      snd (snd (finalize_transfer env (s, fs))) (m_json_fn s) =
        Some \<lparr>content = spliced_header (m_repodata_url s) t, mtime = env_now env\<rparr>)"
proof (intro conjI impI)
  assume a: "m_temp_file s = Some staged \<and> staged \<noteq> env_decompress_tmp env \<and> fs staged = Some f \<and>
    (env_libarchive env (content f) = OpenFails \<or> env_libarchive env (content f) = HeaderFails)"
  have d: "decompress env (s, fs) =
      (Inr False, s\<lparr>m_temp_file := Some (env_decompress_tmp env)\<rparr>,
       destroy_TemporaryFile (Some staged)
         (TemporaryFile (env_decompress_tmp env) (env_now env) fs))"
    by (rule decompress_fails [where f = f]) (use a in auto)
  show "fst (decompress env (s, fs)) = Inr False"
    and "m_temp_file (fst (snd (decompress env (s, fs)))) = Some (env_decompress_tmp env)"
    and "snd (snd (decompress env (s, fs))) (env_decompress_tmp env) =
        Some \<lparr>content = [], mtime = env_now env\<rparr>"
    and "snd (snd (decompress env (s, fs))) staged = None"
    using a by (auto simp add: d destroy_TemporaryFile_def TemporaryFile_def)
next
  assume "m_temp_file s = Some staged \<and> (\<exists>r. fst (decompress env (s, fs)) = Inr r)"
  then show "m_temp_file (fst (snd (decompress env (s, fs)))) = Some (env_decompress_tmp env)"
    by (auto simp add: decompress_def Let_def split: prod.splits sum.splits)
next
  assume a: "m_target s = Some t \<and> t_result t = 0 \<and> (t_http_status t = 200 \<or> t_http_status t = 0) \<and>
    null_or_object (m_mod_etag s) \<and>
    valid_utf8 (m_repodata_url s) \<and> valid_utf8 (t_etag t) \<and> valid_utf8 (t_mod t) \<and>
    valid_utf8 (t_cache_control t) \<and>
    env_final_file_opens env \<and> env_cache_dir_ok env \<and>
    ends_with (m_repodata_url s) ''.bz2'' \<and>
    m_temp_file s = Some staged \<and> fs staged = Some f \<and> staged \<noteq> m_json_fn s \<and>
    staged \<noteq> env_decompress_tmp env \<and> env_decompress_tmp env \<noteq> m_json_fn s \<and>
    (env_libarchive env (content f) = OpenFails \<or> env_libarchive env (content f) = HeaderFails)"
  have "\<exists>fs'. finalize_transfer env (s, fs) =
           (Return True,
            s\<lparr>m_download_complete := True, m_mod_etag := header_object (m_repodata_url s) t,
              m_temp_file := Some (env_decompress_tmp env),
              m_json_cache_valid := True, m_loaded := True, m_temp_file := None\<rparr>, fs') \<and>
         fs' (m_json_fn s) =
           Some \<lparr>content = spliced_header (m_repodata_url s) t, mtime = env_now env\<rparr> \<and>
         fs' (env_decompress_tmp env) = None \<and> fs' staged = None"
    by (rule finalize_transfer_bz2_decompress_fails [where f = f]) (use a in auto)
  then show "snd (snd (finalize_transfer env (s, fs))) (m_json_fn s) =
        Some \<lparr>content = spliced_header (m_repodata_url s) t, mtime = env_now env\<rparr>"
    by auto
qed

theorem decompress_swaps_witness:
  "fst (decompress (env_at 100 bz2_header_unreadable)
      (subdir_waiting ''U.bz2'' (transfer_done ''U.bz2'' 0 200), cached_files ''{\"old\":1}'' ''BZh9'')) =
     Inr False \<and>
   m_temp_file (fst (snd (decompress (env_at 100 bz2_header_unreadable)
      (subdir_waiting ''U.bz2'' (transfer_done ''U.bz2'' 0 200), cached_files ''{\"old\":1}'' ''BZh9'')))) =
     Some ''tmp/decompressed'' \<and>
   snd (snd (decompress (env_at 100 bz2_header_unreadable)
      (subdir_waiting ''U.bz2'' (transfer_done ''U.bz2'' 0 200), cached_files ''{\"old\":1}'' ''BZh9'')))
     ''tmp/decompressed'' = Some \<lparr>content = [], mtime = 100\<rparr> \<and>
   snd (snd (decompress (env_at 100 bz2_header_unreadable)
      (subdir_waiting ''U.bz2'' (transfer_done ''U.bz2'' 0 200), cached_files ''{\"old\":1}'' ''BZh9'')))
     ''tmp/staged'' = None \<and>
   snd (snd (finalize_transfer (env_at 100 bz2_header_unreadable)
      (subdir_waiting ''U.bz2'' (transfer_done ''U.bz2'' 0 200), cached_files ''{\"old\":1}'' ''BZh9'')))
     ''cache/abc.json'' =
     Some \<lparr>content = ''{\"_cache_control\":\"C\",\"_etag\":\"E\",\"_mod\":\"M\",\"_url\":\"U.bz2\",'',
           mtime = 100\<rparr>"
proof -
  let ?env = "env_at 100 bz2_header_unreadable"
  let ?t = "transfer_done ''U.bz2'' 0 200"
  let ?s = "subdir_waiting ''U.bz2'' ?t"
  let ?fs = "cached_files ''{\"old\":1}'' ''BZh9''"
  have h: "spliced_header ''U.bz2'' ?t =
      ''{\"_cache_control\":\"C\",\"_etag\":\"E\",\"_mod\":\"M\",\"_url\":\"U.bz2\",''"
    by (simp add: spliced_header_def quoted_def transfer_done_def DownloadTarget_def escape_char_def)
  have v: "valid_utf8 ''U.bz2''"
    by (simp add: valid_utf8_def)
  have r: "fst (decompress ?env (?s, ?fs)) = Inr False"
    by (simp add: decompress_def raw_def subdir_waiting_def env_at_def cached_files_def
        TemporaryFile_def bz2_header_unreadable_def Let_def)
  show ?thesis
    using decompress_swaps [of ?s "''tmp/staged''" ?env ?fs "\<lparr>content = ''BZh9'', mtime = 90\<rparr>" ?t]
      example_valid_utf8 v h r
    by (simp add: subdir_waiting_def transfer_done_def DownloadTarget_def env_at_def
        cached_files_def null_or_object_def ends_with_def bz2_header_unreadable_def)
qed


text \<open>A read of the archive data that gives a negative result: \<open>raw\<close> throws with what
  it wrote so far in the new file, \<open>decompress\<close> destroys that file on the way out and
  keeps the staged one, and \<open>finalize_transfer\<close> ends with the exception after it has
  truncated the json cache file.\<close>

lemma raw_throws:
  assumes "fs inp = Some f" and "la (content f) = Entry rs"
    and "read_loop rs [] = (Some msg, written)"
  shows "raw la now inp out fs =
      (Inl (RuntimeError (''Could not read archive: '' @ msg)),
       fs(out \<mapsto> \<lparr>content = written, mtime = now\<rparr>))"
  using assms by (simp add: raw_def)

lemma decompress_throws:
  assumes "m_temp_file s = Some staged" and "staged \<noteq> env_decompress_tmp env"
    and "fs staged = Some f"
    and "env_libarchive env (content f) = Entry rs" and "read_loop rs [] = (Some msg, written)"
  shows "decompress env (s, fs) =
      (Inl (RuntimeError (''Could not read archive: '' @ msg)), s,
       fs(env_decompress_tmp env := None))"
proof -
  let ?tmp = "env_decompress_tmp env"
  let ?fs1 = "TemporaryFile ?tmp (env_now env) fs"
  have "raw (env_libarchive env) (env_now env) staged ?tmp ?fs1 =
      (Inl (RuntimeError (''Could not read archive: '' @ msg)),
       ?fs1(?tmp \<mapsto> \<lparr>content = written, mtime = env_now env\<rparr>))"
    by (rule raw_throws [where f = f]) (use assms in \<open>auto simp add: TemporaryFile_def\<close>)
  then show ?thesis
    using assms(1) by (simp add: decompress_def Let_def TemporaryFile_def destroy_TemporaryFile_def)
qed

lemma finalize_transfer_bz2_read_fails:
  assumes "m_target s = Some t" and "t_result t = 0"
    and "t_http_status t = 200 \<or> t_http_status t = 0"
    and "null_or_object (m_mod_etag s)"
    and "env_final_file_opens env" and "env_cache_dir_ok env"
    and "ends_with (m_repodata_url s) ''.bz2''"
    and "m_temp_file s = Some staged" and "fs staged = Some f" and "staged \<noteq> m_json_fn s"
    and "staged \<noteq> env_decompress_tmp env" and "env_decompress_tmp env \<noteq> m_json_fn s"
    and "env_libarchive env (content f) = Entry rs" and "read_loop rs [] = (Some msg, written)"
  shows "finalize_transfer env (s, fs) =
      (Throw (RuntimeError (''Could not read archive: '' @ msg)),
       s\<lparr>m_download_complete := True, m_mod_etag := header_object (m_repodata_url s) t\<rparr>,
       (fs(m_json_fn s \<mapsto> \<lparr>content = [], mtime = env_now env\<rparr>))(env_decompress_tmp env := None))"
proof -
  let ?s1 = "s\<lparr>m_download_complete := True, m_mod_etag := header_object (m_repodata_url s) t\<rparr>"
  let ?fs1 = "fs(m_json_fn s \<mapsto> \<lparr>content = [], mtime = env_now env\<rparr>)"
  have dec: "decompress env (?s1, ?fs1) =
      (Inl (RuntimeError (''Could not read archive: '' @ msg)), ?s1,
       ?fs1(env_decompress_tmp env := None))"
    by (rule decompress_throws [where f = f and rs = rs and written = written])
      (use assms in auto)
  show ?thesis
    using assms(1-7) by (auto simp add: finalize_transfer_def Let_def set_mod_etag_header dec)
qed

text \<open>
  C8 (amended). Take a finished transfer with result code 0 and status 200 (or 0) of a
  URL that ends in \<^verbatim>\<open>.bz2\<close>, an object whose \<open>m_mod_etag\<close> is \<^verbatim>\<open>null\<close> or an object, a
  final file that opens, a cache directory that can be made, a staged file that exists,
  and three different paths for the staged file, the json cache and the temporary file
  of \<open>decompress\<close>. When the archive library cannot open the staged file or cannot read
  its header, and the four header values are well-formed UTF-8, \<open>finalize_transfer\<close>
  does not raise: it returns true, marks the json cache valid and the object loaded, gives
  up both temporary files and leaves at the json cache's path a file written at the time
  of the call, which holds the header prefix alone. When instead the header is read and a
  read of the archive data gives a negative result, \<open>finalize_transfer\<close> ends with the
  \<^verbatim>\<open>std::runtime_error\<close> that \<open>raw\<close> throws: the flags are not set, the staged file stays,
  the temporary file of \<open>decompress\<close> is removed and the json cache file is left empty.
\<close>

theorem finalize_transfer_bz2_tolerated:
  assumes "m_target s = Some t" and "t_result t = 0"
    and "t_http_status t = 200 \<or> t_http_status t = 0"
    and "null_or_object (m_mod_etag s)"
    and "env_final_file_opens env" and "env_cache_dir_ok env"
    and "ends_with (m_repodata_url s) ''.bz2''"
    and "m_temp_file s = Some staged" and "fs staged = Some f" and "staged \<noteq> m_json_fn s"
    and "staged \<noteq> env_decompress_tmp env" and "env_decompress_tmp env \<noteq> m_json_fn s"
  shows "((env_libarchive env (content f) = OpenFails \<or>
           env_libarchive env (content f) = HeaderFails) \<and>
          valid_utf8 (m_repodata_url s) \<and> valid_utf8 (t_etag t) \<and> valid_utf8 (t_mod t) \<and>
          valid_utf8 (t_cache_control t) \<longrightarrow>
            (\<exists>s' fs'. finalize_transfer env (s, fs) = (Return True, s', fs') \<and>
               m_json_cache_valid s' \<and> m_loaded s' \<and> m_temp_file s' = None \<and>
               fs' (m_json_fn s) =
                 Some \<lparr>content = spliced_header (m_repodata_url s) t, mtime = env_now env\<rparr> \<and>
               fs' staged = None \<and> fs' (env_decompress_tmp env) = None)) \<and>
         (env_libarchive env (content f) = Entry rs \<and> read_loop rs [] = (Some msg, written) \<longrightarrow>
            (\<exists>s' fs'. finalize_transfer env (s, fs) =
                 (Throw (RuntimeError (''Could not read archive: '' @ msg)), s', fs') \<and>
               m_json_cache_valid s' = m_json_cache_valid s \<and> m_loaded s' = m_loaded s \<and>
               m_temp_file s' = Some staged \<and>
               fs' (m_json_fn s) = Some \<lparr>content = [], mtime = env_now env\<rparr> \<and>
               fs' staged = Some f \<and> fs' (env_decompress_tmp env) = None))"
proof (intro conjI impI)
  assume a: "(env_libarchive env (content f) = OpenFails \<or>
           env_libarchive env (content f) = HeaderFails) \<and>
          valid_utf8 (m_repodata_url s) \<and> valid_utf8 (t_etag t) \<and> valid_utf8 (t_mod t) \<and>
          valid_utf8 (t_cache_control t)"
  have "\<exists>fs'. finalize_transfer env (s, fs) =
           (Return True,
            s\<lparr>m_download_complete := True, m_mod_etag := header_object (m_repodata_url s) t,
              m_temp_file := Some (env_decompress_tmp env),
              m_json_cache_valid := True, m_loaded := True, m_temp_file := None\<rparr>, fs') \<and>
         fs' (m_json_fn s) =
           Some \<lparr>content = spliced_header (m_repodata_url s) t, mtime = env_now env\<rparr> \<and>
         fs' (env_decompress_tmp env) = None \<and> fs' staged = None"
    by (rule finalize_transfer_bz2_decompress_fails [where f = f]) (use a assms in auto)
  then show "\<exists>s' fs'. finalize_transfer env (s, fs) = (Return True, s', fs') \<and>
               m_json_cache_valid s' \<and> m_loaded s' \<and> m_temp_file s' = None \<and>
               fs' (m_json_fn s) =
                 Some \<lparr>content = spliced_header (m_repodata_url s) t, mtime = env_now env\<rparr> \<and>
               fs' staged = None \<and> fs' (env_decompress_tmp env) = None"
    by auto
next
  assume a: "env_libarchive env (content f) = Entry rs \<and> read_loop rs [] = (Some msg, written)"
  have "finalize_transfer env (s, fs) =
      (Throw (RuntimeError (''Could not read archive: '' @ msg)),
       s\<lparr>m_download_complete := True, m_mod_etag := header_object (m_repodata_url s) t\<rparr>,
       (fs(m_json_fn s \<mapsto> \<lparr>content = [], mtime = env_now env\<rparr>))(env_decompress_tmp env := None))"
    by (rule finalize_transfer_bz2_read_fails [where f = f and rs = rs and written = written])
      (use a assms in auto)
  then show "\<exists>s' fs'. finalize_transfer env (s, fs) =
                 (Throw (RuntimeError (''Could not read archive: '' @ msg)), s', fs') \<and>
               m_json_cache_valid s' = m_json_cache_valid s \<and> m_loaded s' = m_loaded s \<and>
               m_temp_file s' = Some staged \<and>
               fs' (m_json_fn s) = Some \<lparr>content = [], mtime = env_now env\<rparr> \<and>
               fs' staged = Some f \<and> fs' (env_decompress_tmp env) = None"
    using assms(8-12) by auto
qed

theorem finalize_transfer_bz2_tolerated_witness:
  "(\<exists>s' fs'.
     finalize_transfer (env_at 100 bz2_header_unreadable)
       (subdir_waiting ''U.bz2'' (transfer_done ''U.bz2'' 0 200), cached_files ''{\"old\":1}'' ''BZh9'') =
       (Return True, s', fs') \<and>
     m_json_cache_valid s' \<and> m_loaded s' \<and> m_temp_file s' = None \<and>
     fs' ''cache/abc.json'' =
       Some \<lparr>content = ''{\"_cache_control\":\"C\",\"_etag\":\"E\",\"_mod\":\"M\",\"_url\":\"U.bz2\",'',
             mtime = 100\<rparr> \<and>
     fs' ''tmp/staged'' = None \<and> fs' ''tmp/decompressed'' = None) \<and>
   (\<exists>s' fs'.
     finalize_transfer (env_at 100 bz2_corrupt_block)
       (subdir_waiting ''U.bz2'' (transfer_done ''U.bz2'' 0 200), cached_files ''{\"old\":1}'' ''BZh9'') =
       (Throw (RuntimeError ''Could not read archive: bzip decompression failed''), s', fs') \<and>
     m_json_cache_valid s' = False \<and> m_loaded s' = False \<and>
     m_temp_file s' = Some ''tmp/staged'' \<and>
     fs' ''cache/abc.json'' = Some \<lparr>content = [], mtime = 100\<rparr> \<and>
     fs' ''tmp/staged'' = Some \<lparr>content = ''BZh9'', mtime = 90\<rparr> \<and>
     fs' ''tmp/decompressed'' = None)"
proof -
  let ?t = "transfer_done ''U.bz2'' 0 200"
  let ?s = "subdir_waiting ''U.bz2'' ?t"
  let ?fs = "cached_files ''{\"old\":1}'' ''BZh9''"
  let ?f = "\<lparr>content = ''BZh9'', mtime = 90\<rparr>"
  have v: "valid_utf8 ''U.bz2''"
    by (simp add: valid_utf8_def)
  have h: "spliced_header ''U.bz2'' ?t =
      ''{\"_cache_control\":\"C\",\"_etag\":\"E\",\"_mod\":\"M\",\"_url\":\"U.bz2\",''"
    by (simp add: spliced_header_def quoted_def transfer_done_def DownloadTarget_def escape_char_def)
  have rl: "read_loop [Block ''{\"pk'', ReadFailure ''bzip decompression failed''] [] =
      (Some ''bzip decompression failed'', ''{\"pk'')"
    by simp
  have a: "\<exists>s' fs'.
     finalize_transfer (env_at 100 bz2_header_unreadable) (?s, ?fs) = (Return True, s', fs') \<and>
     m_json_cache_valid s' \<and> m_loaded s' \<and> m_temp_file s' = None \<and>
     fs' ''cache/abc.json'' =
       Some \<lparr>content = ''{\"_cache_control\":\"C\",\"_etag\":\"E\",\"_mod\":\"M\",\"_url\":\"U.bz2\",'',
             mtime = 100\<rparr> \<and>
     fs' ''tmp/staged'' = None \<and> fs' ''tmp/decompressed'' = None"
    using finalize_transfer_bz2_tolerated
      [of ?s ?t "env_at 100 bz2_header_unreadable" "''tmp/staged''" ?fs ?f]
      example_valid_utf8 v h
    by (auto simp add: subdir_waiting_def transfer_done_def DownloadTarget_def env_at_def
        cached_files_def null_or_object_def ends_with_def bz2_header_unreadable_def)
  have b: "\<exists>s' fs'.
     finalize_transfer (env_at 100 bz2_corrupt_block) (?s, ?fs) =
       (Throw (RuntimeError ''Could not read archive: bzip decompression failed''), s', fs') \<and>
     m_json_cache_valid s' = False \<and> m_loaded s' = False \<and>
     m_temp_file s' = Some ''tmp/staged'' \<and>
     fs' ''cache/abc.json'' = Some \<lparr>content = [], mtime = 100\<rparr> \<and>
     fs' ''tmp/staged'' = Some \<lparr>content = ''BZh9'', mtime = 90\<rparr> \<and>
     fs' ''tmp/decompressed'' = None"
    using finalize_transfer_bz2_tolerated
      [of ?s ?t "env_at 100 bz2_corrupt_block" "''tmp/staged''" ?fs ?f
        "[Block ''{\"pk'', ReadFailure ''bzip decompression failed'']"
        "''bzip decompression failed''" "''{\"pk''"] rl
    by (auto simp add: subdir_waiting_def transfer_done_def DownloadTarget_def env_at_def
        cached_files_def null_or_object_def ends_with_def bz2_corrupt_block_def)
  show ?thesis
    using a b by (rule conjI)
qed

text \<open>The claim as stated fails: when the stream is corrupt after its header, so that
  a read of the archive gives a negative result, \<open>raw\<close> throws and \<open>finalize_transfer\<close>
  ends with that exception; the json cache file is left empty.\<close>

theorem finalize_transfer_bz2_counterexample:
  "ends_with (m_repodata_url (subdir_waiting ''U.bz2'' (transfer_done ''U.bz2'' 0 200))) ''.bz2'' \<and>
   t_http_status (transfer_done ''U.bz2'' 0 200) = 200 \<and>
   fst (finalize_transfer (env_at 100 bz2_corrupt_block)
      (subdir_waiting ''U.bz2'' (transfer_done ''U.bz2'' 0 200), cached_files ''{\"old\":1}'' ''BZh9'')) =
     Throw (RuntimeError ''Could not read archive: bzip decompression failed'') \<and>
   snd (snd (finalize_transfer (env_at 100 bz2_corrupt_block)
      (subdir_waiting ''U.bz2'' (transfer_done ''U.bz2'' 0 200), cached_files ''{\"old\":1}'' ''BZh9'')))
     ''cache/abc.json'' = Some \<lparr>content = [], mtime = 100\<rparr>"
  by (simp add: finalize_transfer_def subdir_waiting_def transfer_done_def DownloadTarget_def
      env_at_def cached_files_def ends_with_def set_mod_etag_def json_clear_def json_set_def
      decompress_def raw_def TemporaryFile_def destroy_TemporaryFile_def bz2_corrupt_block_def
      Let_def)

text \<open>
  C9. \<open>clear_cache\<close> changes no member of the object, removes the json cache file
  and the derived cache file and leaves every other file. So once \<open>m_json_cache_valid\<close>
  holds, which is the case after a \<open>finalize_transfer\<close> that returned true and after a
  \<open>load\<close> that set \<open>m_loaded\<close>, \<open>cache_path\<close> after \<open>clear_cache\<close> still returns a
  path, and no file is at that path.
\<close>

theorem clear_cache_keeps_flags:
  "fst (clear_cache (s, fs)) = s \<and>
   snd (clear_cache (s, fs)) (m_json_fn s) = None \<and>
   snd (clear_cache (s, fs)) (m_solv_fn s) = None \<and>
   (\<forall>p. p \<noteq> m_json_fn s \<and> p \<noteq> m_solv_fn s \<longrightarrow> snd (clear_cache (s, fs)) p = fs p) \<and>
   (m_json_cache_valid s \<longrightarrow>
      (\<exists>p. cache_path (fst (clear_cache (s, fs))) = Inr p \<and> snd (clear_cache (s, fs)) p = None)) \<and>
   (fst (finalize_transfer env (s0, fs0)) = Return True \<longrightarrow>
      m_json_cache_valid (fst (snd (finalize_transfer env (s0, fs0))))) \<and>
   (\<not> m_loaded s0 \<and> m_loaded (fst (snd (load ctx now tmp (s0, fs0)))) \<longrightarrow>
      m_json_cache_valid (fst (snd (load ctx now tmp (s0, fs0)))))"
proof -
  have a: "fst (clear_cache (s, fs)) = s \<and>
      snd (clear_cache (s, fs)) (m_json_fn s) = None \<and>
      snd (clear_cache (s, fs)) (m_solv_fn s) = None \<and>
      (\<forall>p. p \<noteq> m_json_fn s \<and> p \<noteq> m_solv_fn s \<longrightarrow> snd (clear_cache (s, fs)) p = fs p)"
    by (auto simp add: clear_cache_def remove_if_exists_def)
  have b: "m_json_cache_valid s \<longrightarrow>
      (\<exists>p. cache_path (fst (clear_cache (s, fs))) = Inr p \<and> snd (clear_cache (s, fs)) p = None)"
    by (auto simp add: clear_cache_def remove_if_exists_def cache_path_def)
  have c: "fst (finalize_transfer env (s0, fs0)) = Return True \<longrightarrow>
      m_json_cache_valid (fst (snd (finalize_transfer env (s0, fs0))))"
    by (auto simp add: finalize_transfer_def Let_def splice_def decompress_def
        split: if_splits sum.splits option.splits prod.splits)
  have d: "\<not> m_loaded s0 \<and> m_loaded (fst (snd (load ctx now tmp (s0, fs0)))) \<longrightarrow>
      m_json_cache_valid (fst (snd (load ctx now tmp (s0, fs0))))"
    by (auto simp add: load_def Let_def create_target_def split: if_splits sum.splits)
  show ?thesis
    using a b c d by simp
qed

theorem clear_cache_keeps_flags_witness:
  "cache_path (fst (clear_cache (snd (finalize_transfer (env_at 100 (\<lambda>_. OpenFails))
       (subdir_waiting ''U'' (transfer_done ''U'' 0 304), cached_files ''{\"old\":1}'' []))))) =
     Inr ''cache/abc.solv'' \<and>
   snd (clear_cache (snd (finalize_transfer (env_at 100 (\<lambda>_. OpenFails))
       (subdir_waiting ''U'' (transfer_done ''U'' 0 304), cached_files ''{\"old\":1}'' []))))
     ''cache/abc.solv'' = None \<and>
   snd (clear_cache (snd (finalize_transfer (env_at 100 (\<lambda>_. OpenFails))
       (subdir_waiting ''U'' (transfer_done ''U'' 0 304), cached_files ''{\"old\":1}'' []))))
     ''cache/abc.json'' = None"
proof -
  let ?env = "env_at 100 (\<lambda>_. OpenFails)"
  let ?s0 = "subdir_waiting ''U'' (transfer_done ''U'' 0 304)"
  let ?fs0 = "cached_files ''{\"old\":1}'' []"
  let ?F = "finalize_transfer ?env (?s0, ?fs0)"
  have ages: "check_cache ?fs0 ''cache/abc.solv'' 100 = 80"
    "check_cache ?fs0 ''cache/abc.json'' 100 = 90"
    by (simp_all add: check_cache_def cached_files_def)
  have f: "fst ?F = Return True" "m_solv_cache_valid (fst (snd ?F))"
    "m_json_fn (fst (snd ?F)) = ''cache/abc.json''" "m_solv_fn (fst (snd ?F)) = ''cache/abc.solv''"
    by (simp_all add: finalize_transfer_def subdir_waiting_def transfer_done_def DownloadTarget_def
        env_at_def ages duration_max_def)
  have c: "clear_cache (snd ?F) = clear_cache (fst (snd ?F), snd (snd ?F))"
    by simp
  show ?thesis
    unfolding c
    using clear_cache_keeps_flags [of "fst (snd ?F)" "snd (snd ?F)" ?env ?s0 ?fs0] f
    by (simp add: cache_path_def del: prod.collapse)
qed



subsection \<open>The header member is \<^verbatim>\<open>null\<close> or an object\<close>

text \<open>What the parser reads is a prefix of its input, and only the text of an object
  ends in a closing brace.\<close>

lemma skip_ws_suffix: "\<exists>ws. s = ws @ skip_ws s \<and> (\<forall>c \<in> set ws. is_ws c)"
proof (induction s)
  case Nil
  then show ?case by simp
next
  case (Cons c s)
  show ?case
  proof (cases "is_ws c")
    case True
    from Cons obtain ws where "s = ws @ skip_ws s" "\<forall>c \<in> set ws. is_ws c" by blast
    then have "c # s = (c # ws) @ skip_ws (c # s) \<and> (\<forall>x \<in> set (c # ws). is_ws x)"
      using True by simp
    then show ?thesis by blast
  next
    case False
    then have "c # s = [] @ skip_ws (c # s) \<and> (\<forall>x \<in> set []. is_ws x)" by simp
    then show ?thesis by blast
  qed
qed

lemma skip_ws_Cons_suffix:
  assumes "skip_ws s = c # cs"
  shows "\<exists>ws. s = ws @ c # cs"
  using skip_ws_suffix [of s] assms by auto

lemma skip_ws_Nil_all_ws: "skip_ws s = [] \<Longrightarrow> \<forall>c \<in> set s. is_ws c"
  using skip_ws_suffix [of s] by auto

lemma scan_string_suffix:
  "scan_string st s = Some (t, r) \<Longrightarrow> \<exists>pre. s = pre @ CHR 0x22 # r"
proof (induction st s arbitrary: t r rule: scan_string.induct)
  case (1 st)
  then show ?case by simp
next
  case (2 st c cs)
  show ?case
  proof (cases "st = U_Accept \<and> c = CHR 0x22")
    case True
    then have "c # cs = [] @ CHR 0x22 # r" using "2.prems" by simp
    then show ?thesis by blast
  next
    case nq: False
    show ?thesis
    proof (cases "st = U_Accept \<and> c = CHR 0x5C")
      case True
      then obtain e r0 where cs: "cs = e # r0"
        using "2.prems" by (cases cs) auto
      show ?thesis
      proof (cases "e = CHR ''u''")
        case u: True
        then obtain cp n where cp: "scan_codepoint r0 = Some (cp, n)"
          using "2.prems" True cs by (auto split: option.splits)
        then have "prepend (utf8_encode cp) (scan_string U_Accept (drop n r0)) = Some (t, r)"
          using "2.prems" True cs u by simp
        then obtain u' where "scan_string U_Accept (drop n r0) = Some (u', r)"
          using prepend_Some by blast
        then obtain pre where "drop n r0 = pre @ CHR 0x22 # r"
          using "2.IH"(1) [OF nq True cs u cp refl] by blast
        then have "c # cs = (c # e # take n r0 @ pre) @ CHR 0x22 # r"
          using cs by (metis append_Cons append_assoc append_take_drop_id)
        then show ?thesis by blast
      next
        case nu: False
        then obtain ch where ch: "simple_escape e = Some ch"
          using "2.prems" True cs by (auto split: option.splits)
        then have "prepend [ch] (scan_string U_Accept r0) = Some (t, r)"
          using "2.prems" True cs nu by simp
        then obtain u' where "scan_string U_Accept r0 = Some (u', r)"
          using prepend_Some by blast
        then obtain pre where "r0 = pre @ CHR 0x22 # r"
          using "2.IH"(2) [OF nq True cs nu ch] by blast
        then have "c # cs = (c # e # pre) @ CHR 0x22 # r"
          using cs by simp
        then show ?thesis by blast
      qed
    next
      case nb: False
      then have nc: "\<not> (st = U_Accept \<and> (of_char c :: nat) < 0x20)"
        using "2.prems" nq by auto
      have nr: "utf8_step st (of_char c) \<noteq> U_Reject"
        using "2.prems" nq nb nc by (auto simp add: Let_def split: if_splits)
      then have "prepend [c] (scan_string (utf8_step st (of_char c)) cs) = Some (t, r)"
        using "2.prems" nq nb nc by (auto simp add: Let_def)
      then obtain u' where "scan_string (utf8_step st (of_char c)) cs = Some (u', r)"
        using prepend_Some by blast
      then obtain pre where "cs = pre @ CHR 0x22 # r"
        using "2.IH"(3) [OF nq nb nc refl nr] by blast
      then have "c # cs = (c # pre) @ CHR 0x22 # r" by simp
      then show ?thesis by blast
    qed
  qed
qed

lemma scan_literal_suffix:
  assumes "scan_literal s = Some (v, r)"
  shows "\<exists>pre. s = pre @ r \<and> pre \<noteq> [] \<and> last pre \<noteq> CHR ''}''"
proof -
  consider "take 4 s = ''true''" "r = drop 4 s"
    | "take 5 s = ''false''" "r = drop 5 s"
    | "take 4 s = ''null''" "r = drop 4 s"
    using assms by (auto simp add: scan_literal_def split: if_splits)
  then show ?thesis
  proof cases
    case 1
    then have "s = ''true'' @ r" by (metis append_take_drop_id)
    then show ?thesis by (intro exI [of _ "''true''"]) simp
  next
    case 2
    then have "s = ''false'' @ r" by (metis append_take_drop_id)
    then show ?thesis by (intro exI [of _ "''false''"]) simp
  next
    case 3
    then have "s = ''null'' @ r" by (metis append_take_drop_id)
    then show ?thesis by (intro exI [of _ "''null''"]) simp
  qed
qed

lemma takeWhile_last:
  "takeWhile P xs \<noteq> [] \<Longrightarrow> P (last (takeWhile P xs))"
  by (metis last_in_set set_takeWhileD)

lemma scan_number_suffix:
  assumes "scan_number s = Some (v, r)"
  shows "\<exists>pre. s = pre @ r \<and> pre \<noteq> [] \<and> is_digit (last pre)"
proof -
  define neg where "neg = (take 1 s = ''-'')"
  define s1 where "s1 = (if neg then drop 1 s else s)"
  define ip where "ip = (if take 1 s1 = ''0'' then ''0'' else takeWhile is_digit s1)"
  define s2 where "s2 = drop (length ip) s1"
  define has_frac where "has_frac = (take 1 s2 = ''.'')"
  define fr where "fr = (if has_frac then takeWhile is_digit (drop 1 s2) else [])"
  define s3 where "s3 = (if has_frac then drop (1 + length fr) s2 else s2)"
  define has_exp where "has_exp = (take 1 s3 = ''e'' \<or> take 1 s3 = ''E'')"
  define sg where "sg = (if has_exp \<and> (take 1 (drop 1 s3) = ''+'' \<or> take 1 (drop 1 s3) = ''-'')
                then 1 else (0::nat))"
  define ex where "ex = (if has_exp then takeWhile is_digit (drop (1 + sg) s3) else [])"
  define s4 where "s4 = (if has_exp then drop (1 + sg + length ex) s3 else s3)"
  have r: "r = s4" and ip: "ip \<noteq> []" and fr: "has_frac \<longrightarrow> fr \<noteq> []" and ex: "has_exp \<longrightarrow> ex \<noteq> []"
    using assms
    unfolding scan_number_def Let_def neg_def [symmetric] s1_def [symmetric] ip_def [symmetric]
      s2_def [symmetric] has_frac_def [symmetric] fr_def [symmetric] s3_def [symmetric]
      has_exp_def [symmetric] sg_def [symmetric] ex_def [symmetric] s4_def [symmetric]
    by (auto split: if_splits)
  obtain p1 where p1: "s = p1 @ s1"
    unfolding s1_def by (metis append_Nil append_take_drop_id)
  have ipd: "is_digit (last ip)"
  proof (cases "take 1 s1 = ''0''")
    case True
    then show ?thesis unfolding ip_def by (simp add: is_digit_def in_range_def)
  next
    case False
    then show ?thesis using ip takeWhile_last [of is_digit s1] unfolding ip_def by simp
  qed
  have "take (length ip) s1 = ip"
  proof (cases "take 1 s1 = ''0''")
    case True
    then show ?thesis unfolding ip_def by simp
  next
    case False
    then show ?thesis unfolding ip_def by (simp add: takeWhile_eq_take [symmetric])
  qed
  then have p2: "s1 = ip @ s2"
    unfolding s2_def by (metis append_take_drop_id)
  obtain p3 where p3: "s2 = p3 @ s3" "p3 = [] \<or> is_digit (last p3)"
  proof (cases has_frac)
    case False
    then have "s2 = [] @ s3" unfolding s3_def by simp
    then show ?thesis using that by blast
  next
    case True
    then obtain rest where s2: "s2 = CHR ''.'' # rest"
      unfolding has_frac_def by (cases s2) auto
    have frr: "fr = takeWhile is_digit rest" using True s2 unfolding fr_def by simp
    have "s3 = drop (length fr) rest" using True s2 unfolding s3_def by simp
    then have "rest = fr @ s3"
      unfolding frr by (metis append_take_drop_id takeWhile_eq_take)
    then have a: "s2 = (CHR ''.'' # fr) @ s3" using s2 by simp
    have "fr \<noteq> []" using fr True by simp
    then have "is_digit (last (CHR ''.'' # fr))"
      using takeWhile_last [of is_digit rest] frr by simp
    then show ?thesis using that a by blast
  qed
  obtain p4 where p4: "s3 = p4 @ s4" "p4 = [] \<or> is_digit (last p4)"
  proof (cases has_exp)
    case False
    then have "s3 = [] @ s4" unfolding s4_def by simp
    then show ?thesis using that by blast
  next
    case True
    then obtain e rest where s3: "s3 = e # rest"
      unfolding has_exp_def by (cases s3) auto
    have exr: "ex = takeWhile is_digit (drop sg rest)" using True s3 unfolding ex_def by simp
    have "s4 = drop (length ex) (drop sg rest)"
      using True s3 unfolding s4_def by (simp add: add.commute)
    then have "drop sg rest = ex @ s4"
      unfolding exr by (metis append_take_drop_id takeWhile_eq_take)
    then have "rest = take sg rest @ ex @ s4"
      by (metis append_take_drop_id)
    then have a: "s3 = (e # take sg rest @ ex) @ s4" using s3 by simp
    have "ex \<noteq> []" using ex True by simp
    then have "is_digit (last (e # take sg rest @ ex))"
      using takeWhile_last [of is_digit "drop sg rest"] exr by simp
    then show ?thesis using that a by blast
  qed
  let ?pre = "p1 @ ip @ p3 @ p4"
  have "s = ?pre @ r" using p1 p2 p3(1) p4(1) r by simp
  moreover have "?pre \<noteq> []" using ip by simp
  moreover have "is_digit (last ?pre)"
    using ip ipd p3(2) p4(2) by (auto simp add: last_append)
  ultimately show ?thesis by blast
qed

lemma parse_suffix:
  "parse_value s = Some (v, r) \<longrightarrow>
     (\<exists>pre. s = pre @ r \<and> pre \<noteq> [] \<and> (is_object v \<or> last pre \<noteq> CHR ''}''))"
  "parse_elements acc1 s1 = Some (v1, r1) \<longrightarrow>
     (\<exists>pre. s1 = pre @ r1 \<and> pre \<noteq> [] \<and> last pre = CHR '']'')"
  "parse_members acc2 s2 = Some (v2, r2) \<longrightarrow>
     (\<exists>pre. s2 = pre @ r2 \<and> pre \<noteq> [] \<and> is_object v2)"
proof (induction s and acc1 s1 and acc2 s2 arbitrary: v r and v1 r1 and v2 r2
    rule: parse_value_parse_elements_parse_members.induct)
  case (1 s)
  show ?case
  proof
    assume a: "parse_value s = Some (v, r)"
    then obtain c cs where sk: "skip_ws s = c # cs"
      by (subst (asm) parse_value.simps) (auto split: list.splits)
    obtain ws where ws: "s = ws @ c # cs" using skip_ws_Cons_suffix [OF sk] by blast
    consider (obj) "c = CHR ''{''" | (arr) "c \<noteq> CHR ''{''" "c = CHR ''[''"
      | (str) "c \<noteq> CHR ''{''" "c \<noteq> CHR ''[''" "c = CHR 0x22"
      | (lit) "c \<noteq> CHR ''{''" "c \<noteq> CHR ''[''" "c \<noteq> CHR 0x22"
          "c = CHR ''t'' \<or> c = CHR ''f'' \<or> c = CHR ''n''"
      | (num) "c \<noteq> CHR ''{''" "c \<noteq> CHR ''[''" "c \<noteq> CHR 0x22"
          "\<not> (c = CHR ''t'' \<or> c = CHR ''f'' \<or> c = CHR ''n'')"
      by blast
    then show "\<exists>pre. s = pre @ r \<and> pre \<noteq> [] \<and> (is_object v \<or> last pre \<noteq> CHR ''}'')"
    proof cases
      case obj
      then obtain d ds where sk2: "skip_ws cs = d # ds"
        using a sk by (subst (asm) parse_value.simps) (auto split: list.splits)
      obtain ws2 where ws2: "cs = ws2 @ d # ds" using skip_ws_Cons_suffix [OF sk2] by blast
      show ?thesis
      proof (cases "d = CHR ''}''")
        case True
        then have "r = ds" "v = Object []"
          using a sk sk2 obj by (subst (asm) parse_value.simps, simp)+
        then have "s = (ws @ c # ws2 @ [d]) @ r \<and> is_object v"
          using ws ws2 by (simp add: is_object_def)
        then show ?thesis by blast
      next
        case False
        then have "parse_members [] (d # ds) = Some (v, r)"
          using a sk sk2 obj by (subst (asm) parse_value.simps) simp
        then obtain pre where "d # ds = pre @ r" "is_object v"
          using "1.IH"(1) [OF sk obj sk2 False] by blast
        then have "s = (ws @ c # ws2 @ pre) @ r \<and> is_object v"
          using ws ws2 by simp
        then show ?thesis by blast
      qed
    next
      case arr
      then obtain d ds where sk2: "skip_ws cs = d # ds"
        using a sk by (subst (asm) parse_value.simps) (auto split: list.splits)
      obtain ws2 where ws2: "cs = ws2 @ d # ds" using skip_ws_Cons_suffix [OF sk2] by blast
      show ?thesis
      proof (cases "d = CHR '']''")
        case True
        then have "r = ds"
          using a sk sk2 arr by (subst (asm) parse_value.simps) simp
        then have "s = (ws @ c # ws2 @ [d]) @ r \<and> last (ws @ c # ws2 @ [d]) \<noteq> CHR ''}''"
          using ws ws2 True by simp
        then show ?thesis by blast
      next
        case False
        then have "parse_elements [] (d # ds) = Some (v, r)"
          using a sk sk2 arr by (subst (asm) parse_value.simps) simp
        then obtain pre where pre: "d # ds = pre @ r" "pre \<noteq> []" "last pre = CHR '']''"
          using "1.IH"(2) [OF sk arr sk2 False] by blast
        then have "s = (ws @ c # ws2 @ pre) @ r \<and> last (ws @ c # ws2 @ pre) \<noteq> CHR ''}''"
          using ws ws2 by simp
        then show ?thesis by blast
      qed
    next
      case str
      then obtain t where "scan_string U_Accept cs = Some (t, r)"
        using a sk by (subst (asm) parse_value.simps) (auto split: option.splits)
      then obtain pre where "cs = pre @ CHR 0x22 # r" using scan_string_suffix by blast
      then have "s = (ws @ c # pre @ [CHR 0x22]) @ r \<and>
          last (ws @ c # pre @ [CHR 0x22]) \<noteq> CHR ''}''"
        using ws by simp
      then show ?thesis by blast
    next
      case lit
      then have "scan_literal (c # cs) = Some (v, r)"
        using a sk by (subst (asm) parse_value.simps) auto
      then obtain pre where "c # cs = pre @ r" "pre \<noteq> []" "last pre \<noteq> CHR ''}''"
        using scan_literal_suffix by blast
      then have "s = (ws @ pre) @ r \<and> ws @ pre \<noteq> [] \<and> last (ws @ pre) \<noteq> CHR ''}''"
        using ws by simp
      then show ?thesis by blast
    next
      case num
      then have "scan_number (c # cs) = Some (v, r)"
        using a sk by (subst (asm) parse_value.simps) auto
      then obtain pre where pre: "c # cs = pre @ r" "pre \<noteq> []" "is_digit (last pre)"
        using scan_number_suffix by blast
      then have "last pre \<noteq> CHR ''}''" by (auto simp add: is_digit_def in_range_def)
      then have "s = (ws @ pre) @ r \<and> ws @ pre \<noteq> [] \<and> last (ws @ pre) \<noteq> CHR ''}''"
        using ws pre by simp
      then show ?thesis by blast
    qed
  qed
next
  case (2 acc s)
  show ?case
  proof
    assume a: "parse_elements acc s = Some (v1, r1)"
    then obtain v r where pv: "parse_value s = Some (v, r)"
      by (subst (asm) parse_elements.simps) (auto split: option.splits)
    then obtain pre0 where pre0: "s = pre0 @ r" using "2.IH"(1) by blast
    obtain c cs where sk: "skip_ws r = c # cs"
      using a pv by (subst (asm) parse_elements.simps) (auto split: list.splits)
    obtain ws where ws: "r = ws @ c # cs" using skip_ws_Cons_suffix [OF sk] by blast
    show "\<exists>pre. s = pre @ r1 \<and> pre \<noteq> [] \<and> last pre = CHR '']''"
    proof (cases "c = CHR '']''")
      case True
      then have "r1 = cs"
        using a pv sk by (subst (asm) parse_elements.simps) simp
      then have "s = (pre0 @ ws @ [c]) @ r1 \<and> last (pre0 @ ws @ [c]) = CHR '']''"
        using pre0 ws True by simp
      then show ?thesis by blast
    next
      case False
      then have g: "c = CHR '','' \<and> length cs < length s"
        using a pv sk by (subst (asm) parse_elements.simps) (auto split: if_splits)
      then have "parse_elements (acc @ [v]) cs = Some (v1, r1)"
        using a pv sk False by (subst (asm) parse_elements.simps) simp
      then obtain pre where pre: "cs = pre @ r1" "pre \<noteq> []" "last pre = CHR '']''"
        using "2.IH"(2) [OF pv refl sk False g] by blast
      then have "s = (pre0 @ ws @ c # pre) @ r1 \<and> last (pre0 @ ws @ c # pre) = CHR '']''"
        using pre0 ws by simp
      then show ?thesis by blast
    qed
  qed
next
  case (3 acc s)
  show ?case
  proof
    assume a: "parse_members acc s = Some (v2, r2)"
    then obtain c cs where sk: "skip_ws s = c # cs"
      by (subst (asm) parse_members.simps) (auto split: list.splits)
    obtain ws where ws: "s = ws @ c # cs" using skip_ws_Cons_suffix [OF sk] by blast
    have c: "\<not> c \<noteq> CHR 0x22"
      using a sk by (subst (asm) parse_members.simps) (auto split: if_splits)
    obtain k r where ss: "scan_string U_Accept cs = Some (k, r)"
      using a sk c by (subst (asm) parse_members.simps) (auto split: option.splits)
    obtain p1 where p1: "cs = p1 @ CHR 0x22 # r" using scan_string_suffix [OF ss] by blast
    obtain d ds where sk2: "skip_ws r = d # ds"
      using a sk c ss by (subst (asm) parse_members.simps) (auto split: list.splits)
    obtain ws2 where ws2: "r = ws2 @ d # ds" using skip_ws_Cons_suffix [OF sk2] by blast
    have g: "d = CHR '':'' \<and> length ds < length s"
      using a sk c ss sk2 by (subst (asm) parse_members.simps) (auto split: if_splits)
    obtain v r' where pv: "parse_value ds = Some (v, r')"
      using a sk c ss sk2 g by (subst (asm) parse_members.simps) (auto split: option.splits)
    obtain p2 where p2: "ds = p2 @ r'"
      using "3.IH"(1) [OF sk c ss refl sk2 g] pv by blast
    obtain e es where sk3: "skip_ws r' = e # es"
      using a sk c ss sk2 g pv by (subst (asm) parse_members.simps) (auto split: list.splits)
    obtain ws3 where ws3: "r' = ws3 @ e # es" using skip_ws_Cons_suffix [OF sk3] by blast
    have whole: "s = (ws @ c # p1 @ CHR 0x22 # ws2 @ d # p2 @ ws3 @ [e]) @ es"
      using ws p1 ws2 p2 ws3 by simp
    show "\<exists>pre. s = pre @ r2 \<and> pre \<noteq> [] \<and> is_object v2"
    proof (cases "e = CHR ''}''")
      case True
      then have "r2 = es" "v2 = Object (obj_set k v acc)"
        using a sk c ss sk2 g pv sk3 by (subst (asm) parse_members.simps, simp)+
      then show ?thesis using whole by (auto simp add: is_object_def)
    next
      case False
      then have g2: "e = CHR '','' \<and> length es < length s"
        using a sk c ss sk2 g pv sk3 by (subst (asm) parse_members.simps) (auto split: if_splits)
      then have "parse_members (obj_set k v acc) es = Some (v2, r2)"
        using a sk c ss sk2 g pv sk3 False by (subst (asm) parse_members.simps) simp
      then obtain pre where "es = pre @ r2" "is_object v2"
        using "3.IH"(2) [OF sk c ss refl sk2 g pv refl sk3 False g2] by blast
      then have "s = ((ws @ c # p1 @ CHR 0x22 # ws2 @ d # p2 @ ws3 @ [e]) @ pre) @ r2 \<and> is_object v2"
        using whole by simp
      then show ?thesis by blast
    qed
  qed
qed

text \<open>The text that \<open>read_mod_and_etag\<close> parses ends in a closing brace, so the
  function returns \<^verbatim>\<open>null\<close> or an object; \<open>m_mod_etag\<close>, which is \<^verbatim>\<open>null\<close> after
  construction, stays \<^verbatim>\<open>null\<close> or an object under \<open>load\<close>, \<open>finalize_transfer\<close> and
  \<open>clear_cache\<close>.\<close>

lemma parse_value_Nil: "parse_value [] = None"
  by (subst parse_value.simps) simp

lemma parse_SomeD:
  assumes "parse t = Some j"
  shows "\<exists>s0 r. (s0 = t \<or> s0 = drop 3 t) \<and> parse_value s0 = Some (j, r) \<and> skip_ws r = []"
  using assms by (auto simp add: parse_def Let_def split: option.splits if_splits)

lemma parse_closing_brace:
  assumes "parse t = Some j" and "t \<noteq> []" and "last t = CHR ''}''"
  shows "is_object j"
proof -
  obtain s0 r where s0: "s0 = t \<or> s0 = drop 3 t" and pv: "parse_value s0 = Some (j, r)"
    and e: "skip_ws r = []"
    using parse_SomeD [OF assms(1)] by blast
  have ne: "s0 \<noteq> []" using pv parse_value_Nil by auto
  have l: "last s0 = CHR ''}''"
  proof (cases "s0 = t")
    case True
    then show ?thesis using assms(3) by simp
  next
    case False
    then have d: "s0 = drop 3 t" using s0 by simp
    then have "3 < length t" using ne by simp
    then show ?thesis unfolding d using assms(3) by (simp add: last_drop)
  qed
  obtain p where p: "s0 = p @ r" "p \<noteq> []" "is_object j \<or> last p \<noteq> CHR ''}''"
    using parse_suffix(1) [of s0 j r] pv by blast
  show ?thesis
  proof (cases "r = []")
    case True
    then show ?thesis using p l by auto
  next
    case False
    then have "last r = CHR ''}''" using p(1) l by simp
    moreover have "is_ws (last r)" using skip_ws_Nil_all_ws [OF e] False by simp
    ultimately show ?thesis by (simp add: is_ws_def)
  qed
qed

lemma extract_subjson_shape:
  "extract_subjson s result escaped i = [] \<or>
   (\<exists>pre. extract_subjson s result escaped i = pre @ [CHR 0x22, CHR ''}''])"
  by (induction s arbitrary: result escaped i) (auto simp add: Let_def)

lemma read_mod_and_etag_null_or_object: "null_or_object (read_mod_and_etag fs json_fn)"
proof -
  let ?text = "extract_subjson (case fs json_fn of None \<Rightarrow> [] | Some f \<Rightarrow> content f) [] False 0"
  show ?thesis
  proof (cases "parse ?text")
    case None
    then show ?thesis by (simp add: read_mod_and_etag_def null_or_object_def)
  next
    case (Some j)
    then have "?text \<noteq> []" by (auto simp add: parse_empty)
    then obtain pre where t: "?text = pre @ [CHR 0x22, CHR ''}'']"
      using extract_subjson_shape by blast
    have "is_object j"
      by (rule parse_closing_brace [OF Some]) (simp_all add: t)
    then show ?thesis
      using Some by (auto simp add: read_mod_and_etag_def null_or_object_def is_object_def
          split: json.splits)
  qed
qed

lemma create_target_mod_etag:
  "m_mod_etag (fst (create_target tmp now headers (s, fs))) = m_mod_etag s"
  by (simp add: create_target_def Let_def)

lemma decompress_mod_etag: "m_mod_etag (fst (snd (decompress env (s, fs)))) = m_mod_etag s"
  by (simp add: decompress_def Let_def split: option.splits prod.splits sum.splits)

lemma splice_mod_etag: "m_mod_etag (fst (snd (splice env (s, fs)))) = m_mod_etag s"
  by (simp add: splice_def Let_def split: option.splits sum.splits)

lemma decompress_splice_mod_etag:
  "m_mod_etag (fst (snd (case decompress env (s, fs) of
      (Inl e, s2, fs2) \<Rightarrow> (Throw e, s2, fs2)
    | (Inr b, s2, fs2) \<Rightarrow> splice env (s2, fs2)))) = m_mod_etag s"
proof -
  obtain a s2 fs2 where d: "decompress env (s, fs) = (a, s2, fs2)"
    by (cases "decompress env (s, fs)")
  then have "m_mod_etag s2 = m_mod_etag s"
    using decompress_mod_etag [of env s fs] by simp
  then show ?thesis
    unfolding d by (cases a) (simp_all add: splice_mod_etag)
qed

lemma null_or_object_header: "null_or_object (header_object url t)"
  by (simp add: null_or_object_def header_object_def)

lemma load_null_or_object:
  assumes "null_or_object (m_mod_etag s)"
  shows "null_or_object (m_mod_etag (fst (snd (load ctx now tmp (s, fs)))))"
  using assms read_mod_and_etag_null_or_object [of fs "m_json_fn s"]
  by (simp add: load_def Let_def split_beta create_target_mod_etag split: sum.splits)

lemma finalize_transfer_null_or_object:
  assumes "null_or_object (m_mod_etag s)"
  shows "null_or_object (m_mod_etag (fst (snd (finalize_transfer env (s, fs)))))"
  using assms
  by (simp add: finalize_transfer_def Let_def set_mod_etag_header decompress_splice_mod_etag
      splice_mod_etag null_or_object_header split: option.splits)

lemma clear_cache_null_or_object:
  assumes "null_or_object (m_mod_etag s)"
  shows "null_or_object (m_mod_etag (fst (clear_cache (s, fs))))"
  using assms by (simp add: clear_cache_def)

lemma subdir_new_null_or_object: "null_or_object (m_mod_etag (subdir_new url))"
  by (simp add: subdir_new_def null_or_object_def)

end
